theory Spec2Isabelle
  imports Complex_Main "HOL-Library.Word"
begin

unbundle bit_operations_syntax

section \<open>Strings, bytes and the platform\<close>

text \<open>
  A JavaScript string is a sequence of UTF-16 code units; \<open>+\<close> on strings is list append
  and \<open>===\<close> on strings is equality of the sequences. A byte is an element of a
  \<open>Uint8Array\<close>.
\<close>

type_synonym jsstring = "16 word list"
type_synonym byte = "8 word"

text \<open>An ASCII literal as a JavaScript string.\<close>

definition js :: "string \<Rightarrow> jsstring" where
  "js s = map (\<lambda>c. word_of_nat (of_char c)) s"

text \<open>
  The errors the module throws. Each is a plain \<open>Error\<close> in the source, told apart by
  its message:
  \<^item> \<open>EmptyInput\<close>: \<open>Cannot build Merkle tree with 0 items\<close>;
  \<^item> \<open>IndexOutOfRange\<close>: \<open>Invalid leaf index\<close>;
  \<^item> \<open>MalformedTree\<close>: \<open>Malformed tree\<close>;
  \<^item> \<open>NoCrypto\<close>: \<open>No secure crypto implementation found for SHA-256\<close>.
\<close>

datatype error = EmptyInput | IndexOutOfRange | MalformedTree | NoCrypto

text \<open>
  What \<open>hash\<close> takes from the browser: \<open>new TextEncoder().encode\<close>, and
  \<open>window.crypto.subtle.digest('SHA-256', _)\<close>, which is \<open>None\<close> when the test
  \<open>typeof window !== 'undefined' && window.crypto && ...\<close> fails.
\<close>

record platform =
  encode :: "jsstring \<Rightarrow> byte list"
  subtle_digest :: "(byte list \<Rightarrow> byte list) option"

section \<open>The browser: UTF-8 and SHA-256\<close>

text \<open>
  The two platform functions as the standards define them, for the places where a
  property depends on the digest's value. \<open>TextEncoder.encode\<close> (WHATWG Encoding):
  the string is read as code points, an unpaired surrogate becoming U+FFFD, and each
  code point is written in UTF-8.
\<close>

definition is_high :: "16 word \<Rightarrow> bool" where
  "is_high u \<longleftrightarrow> 0xD800 \<le> u \<and> u \<le> 0xDBFF"

definition is_low :: "16 word \<Rightarrow> bool" where
  "is_low u \<longleftrightarrow> 0xDC00 \<le> u \<and> u \<le> 0xDFFF"

fun code_points :: "jsstring \<Rightarrow> nat list" where
  "code_points [] = []"
| "code_points [u] = [if is_high u \<or> is_low u then 0xFFFD else unat u]"
| "code_points (u # v # rest) =
     (if is_high u \<and> is_low v
      then (0x10000 + (unat u - 0xD800) * 0x400 + (unat v - 0xDC00)) # code_points rest
      else (if is_high u \<or> is_low u then 0xFFFD else unat u) # code_points (v # rest))"

definition utf8_code_point :: "nat \<Rightarrow> byte list" where
  "utf8_code_point c =
     (if c < 0x80 then [word_of_nat c]
      else if c < 0x800 then [word_of_nat (0xC0 + c div 64), word_of_nat (0x80 + c mod 64)]
      else if c < 0x10000 then
        [word_of_nat (0xE0 + c div 4096), word_of_nat (0x80 + c div 64 mod 64),
         word_of_nat (0x80 + c mod 64)]
      else
        [word_of_nat (0xF0 + c div 262144), word_of_nat (0x80 + c div 4096 mod 64),
         word_of_nat (0x80 + c div 64 mod 64), word_of_nat (0x80 + c mod 64)])"

definition utf8 :: "jsstring \<Rightarrow> byte list" where
  "utf8 s = concat (map utf8_code_point (code_points s))"

text \<open>SHA-256 (FIPS 180-4) on 32-bit words.\<close>

type_synonym u32 = "32 word"

definition Ch :: "u32 \<Rightarrow> u32 \<Rightarrow> u32 \<Rightarrow> u32" where
  "Ch x y z = (x AND y) XOR (NOT x AND z)"
definition Maj :: "u32 \<Rightarrow> u32 \<Rightarrow> u32 \<Rightarrow> u32" where
  "Maj x y z = (x AND y) XOR (x AND z) XOR (y AND z)"
definition Sigma0 :: "u32 \<Rightarrow> u32" where
  "Sigma0 x = word_rotr 2 x XOR word_rotr 13 x XOR word_rotr 22 x"
definition Sigma1 :: "u32 \<Rightarrow> u32" where
  "Sigma1 x = word_rotr 6 x XOR word_rotr 11 x XOR word_rotr 25 x"
definition sigma0 :: "u32 \<Rightarrow> u32" where
  "sigma0 x = word_rotr 7 x XOR word_rotr 18 x XOR drop_bit 3 x"
definition sigma1 :: "u32 \<Rightarrow> u32" where
  "sigma1 x = word_rotr 17 x XOR word_rotr 19 x XOR drop_bit 10 x"

text \<open>The round constants and the initial hash value, in decimal.\<close>

definition K256 :: "u32 list" where
  "K256 = [
  1116352408, 1899447441, 3049323471, 3921009573, 961987163, 1508970993, 2453635748, 2870763221,
  3624381080, 310598401, 607225278, 1426881987, 1925078388, 2162078206, 2614888103, 3248222580,
  3835390401, 4022224774, 264347078, 604807628, 770255983, 1249150122, 1555081692, 1996064986,
  2554220882, 2821834349, 2952996808, 3210313671, 3336571891, 3584528711, 113926993, 338241895,
  666307205, 773529912, 1294757372, 1396182291, 1695183700, 1986661051, 2177026350, 2456956037,
  2730485921, 2820302411, 3259730800, 3345764771, 3516065817, 3600352804, 4094571909, 275423344,
  430227734, 506948616, 659060556, 883997877, 958139571, 1322822218, 1537002063, 1747873779,
  1955562222, 2024104815, 2227730452, 2361852424, 2428436474, 2756734187, 3204031479, 3329325298]"

definition H256 :: "u32 list" where
  "H256 = [1779033703, 3144134277, 1013904242, 2773480762, 1359893119, 2600822924, 528734635, 1541459225]"

fun expand :: "nat \<Rightarrow> u32 list \<Rightarrow> u32 list" where
  "expand 0 w = []"
| "expand (Suc n) w =
     (let x = sigma1 (w ! 14) + w ! 9 + sigma0 (w ! 1) + w ! 0
      in x # expand n (tl w @ [x]))"

definition sha_round :: "u32 list \<Rightarrow> u32 \<times> u32 \<Rightarrow> u32 list" where
  "sha_round s kw =
     (let T1 = s ! 7 + Sigma1 (s ! 4) + Ch (s ! 4) (s ! 5) (s ! 6) + fst kw + snd kw;
          T2 = Sigma0 (s ! 0) + Maj (s ! 0) (s ! 1) (s ! 2)
      in [T1 + T2, s ! 0, s ! 1, s ! 2, s ! 3 + T1, s ! 4, s ! 5, s ! 6])"

definition compress :: "u32 list \<Rightarrow> u32 list \<Rightarrow> u32 list" where
  "compress H M = map2 (+) H (foldl sha_round H (zip K256 (M @ expand 48 M)))"

definition be32 :: "byte list \<Rightarrow> u32" where
  "be32 bs = foldl (\<lambda>w b. push_bit 8 w OR ucast b) 0 bs"

definition pad :: "byte list \<Rightarrow> byte list" where
  "pad m = m @ [0x80] @ replicate ((119 - length m mod 64) mod 64) 0
             @ map (\<lambda>i. ucast (drop_bit (56 - 8 * i) (word_of_nat (8 * length m) :: 64 word))) [0..<8]"

fun chunks :: "nat \<Rightarrow> nat \<Rightarrow> 'a list \<Rightarrow> 'a list list" where
  "chunks 0 k xs = []"
| "chunks (Suc n) k xs = take k xs # chunks n k (drop k xs)"

definition sha256 :: "byte list \<Rightarrow> byte list" where
  "sha256 m = (let p = pad m;
                   ws = map be32 (chunks (length p div 4) 4 p)
     in concat (map (\<lambda>w. map (\<lambda>i. ucast (drop_bit (24 - 8 * i) w)) [0..<4])
          (foldl compress H256 (chunks (length ws div 16) 16 ws))))"

text \<open>A browser with Web Crypto.\<close>

definition browser :: platform where
  "browser = \<lparr>encode = utf8, subtle_digest = Some sha256\<rparr>"

section \<open>hash\<close>

text \<open>\<open>Number.prototype.toString(16)\<close> on a non-negative integer: lowercase, no leading zero.\<close>

definition digits16 :: jsstring where
  "digits16 = js ''0123456789abcdef''"

function toString16 :: "nat \<Rightarrow> jsstring" where
  "toString16 n =
     (if n < 16 then [digits16 ! n] else toString16 (n div 16) @ [digits16 ! (n mod 16)])"
  by pat_completeness auto
termination
  by (relation "measure (\<lambda>n. n)") auto

text \<open>\<open>s.padStart(targetLength, c)\<close> for a filler \<open>c\<close> of one code unit.\<close>

definition padStart :: "nat \<Rightarrow> 16 word \<Rightarrow> jsstring \<Rightarrow> jsstring" where
  "padStart targetLength c s = replicate (targetLength - length s) c @ s"

text \<open>
  \<open>Array.from(new Uint8Array(digest)).map(b => b.toString(16).padStart(2, '0')).join('')\<close>
\<close>

definition hex :: "byte list \<Rightarrow> jsstring" where
  "hex digest = concat (map (\<lambda>b. padStart 2 (hd (js ''0'')) (toString16 (unat b))) digest)"

definition hash :: "platform \<Rightarrow> jsstring \<Rightarrow> error + jsstring" where
  "hash P data =
     (let buffer = encode P data
      in case subtle_digest P of
           Some digest \<Rightarrow> Inr (hex (digest buffer))
         | None \<Rightarrow> Inl NoCrypto)"

section \<open>MerkleNode\<close>

text \<open>
  A node object. \<open>oid\<close> is the identity of the object, which \<open>===\<close> compares: the
  sequence number of its allocation within one \<open>build\<close>. The other fields are the
  class's fields, all \<open>readonly\<close>; an absent optional field is \<open>None\<close>.
\<close>

datatype MerkleNode =
  MerkleNode (oid: nat) (node_hash: jsstring) (left: "MerkleNode option")
    (right: "MerkleNode option") (isLeaf: bool) (data: "jsstring option")

text \<open>The constructor: \<open>this.isLeaf = !left && !right\<close>.\<close>

definition new_MerkleNode ::
    "nat \<Rightarrow> jsstring \<Rightarrow> MerkleNode option \<Rightarrow> MerkleNode option \<Rightarrow> jsstring option \<Rightarrow> MerkleNode" where
  "new_MerkleNode ref h l r d = MerkleNode ref h l r (l = None \<and> r = None) d"

datatype direction = Left | Right

record MerkleProofStep =
  siblingHash :: jsstring
  direction :: direction

type_synonym MerkleProof = "MerkleProofStep list"

record MerkleTree =
  root :: MerkleNode
  leaves :: "MerkleNode list"
  leafMap :: "jsstring \<rightharpoonup> MerkleNode list"

section \<open>MerkleTree.buildTree\<close>

text \<open>
  The \<open>for\<close> loop of \<open>buildTree\<close>: \<open>i\<close> is the loop index, \<open>nextLevel\<close> the array
  being filled and \<open>fresh\<close> the identity the next \<open>new MerkleNode\<close> gets.
\<close>

function pairLoop ::
    "platform \<Rightarrow> MerkleNode list \<Rightarrow> nat \<Rightarrow> MerkleNode list \<Rightarrow> nat
      \<Rightarrow> error + MerkleNode list \<times> nat" where
  "pairLoop P nodes i nextLevel fresh =
     (if i < length nodes then
        let l = nodes ! i;
            (r, fresh1) =
              (if i + 1 < length nodes then (nodes ! (i + 1), fresh)
               else (new_MerkleNode fresh (node_hash l) None None None, fresh + 1))
        in case hash P (node_hash l @ node_hash r) of
             Inl e \<Rightarrow> Inl e
           | Inr parentHash \<Rightarrow>
               pairLoop P nodes (i + 2)
                 (nextLevel @ [new_MerkleNode fresh1 parentHash (Some l) (Some r) None])
                 (fresh1 + 1)
      else Inr (nextLevel, fresh))"
  by pat_completeness auto
termination
  by (relation "measure (\<lambda>(P, nodes, i, nextLevel, fresh). length nodes - i)") auto

text \<open>
  \<open>buildTree\<close> calls itself on the next level until one node is left. On the empty array
  the loop body never runs and the call repeats for ever, so the function is partial:
  \<open>None\<close> is "does not return".
\<close>

partial_function (option) buildTree ::
    "platform \<Rightarrow> MerkleNode list \<Rightarrow> nat \<Rightarrow> (error + MerkleNode \<times> nat) option" where
  "buildTree P nodes fresh =
     (if length nodes = 1 then Some (Inr (nodes ! 0, fresh))
      else case pairLoop P nodes 0 [] fresh of
             Inl e \<Rightarrow> Some (Inl e)
           | Inr (nextLevel, fresh') \<Rightarrow> buildTree P nextLevel fresh')"

section \<open>MerkleTree.build\<close>

text \<open>\<open>Promise.all(dataItems.map(item => hash(item)))\<close>: rejects with the first error.\<close>

fun hashAll :: "platform \<Rightarrow> jsstring list \<Rightarrow> error + jsstring list" where
  "hashAll P [] = Inr []"
| "hashAll P (item # items) =
     (case hash P item of
        Inl e \<Rightarrow> Inl e
      | Inr h \<Rightarrow> (case hashAll P items of Inl e \<Rightarrow> Inl e | Inr hs \<Rightarrow> Inr (h # hs)))"

text \<open>The \<open>forEach\<close> that fills \<open>leafMap\<close>: \<open>leafMap.get(leaf.hash) ?? []\<close>, push, set.\<close>

definition addLeaf :: "(jsstring \<rightharpoonup> MerkleNode list) \<Rightarrow> MerkleNode \<Rightarrow> (jsstring \<rightharpoonup> MerkleNode list)" where
  "addLeaf m leaf =
     (let arr = (case m (node_hash leaf) of Some a \<Rightarrow> a | None \<Rightarrow> [])
      in m(node_hash leaf \<mapsto> arr @ [leaf]))"

definition build :: "platform \<Rightarrow> jsstring list \<Rightarrow> (error + MerkleTree) option" where
  "build P dataItems =
     (if length dataItems = 0 then Some (Inl EmptyInput)
      else case hashAll P dataItems of
        Inl e \<Rightarrow> Some (Inl e)
      | Inr hashes \<Rightarrow>
          let lvs = map (\<lambda>i. new_MerkleNode i (hashes ! i) None None (Some (dataItems ! i)))
                      [0..<length dataItems]
          in case buildTree P lvs (length lvs) of
               None \<Rightarrow> None
             | Some (Inl e) \<Rightarrow> Some (Inl e)
             | Some (Inr (rt, fresh)) \<Rightarrow>
                 Some (Inr \<lparr>root = rt, leaves = lvs, leafMap = foldl addLeaf Map.empty lvs\<rparr>))"

definition getRootHash :: "MerkleTree \<Rightarrow> jsstring" where
  "getRootHash t = node_hash (root t)"

definition getLeafHashes :: "MerkleTree \<Rightarrow> jsstring list" where
  "getLeafHashes t = map node_hash (leaves t)"

section \<open>MerkleTree.generateProof and getProof\<close>

text \<open>
  The inner function \<open>traverse\<close>. It pushes onto the array \<open>proof\<close> of the enclosing
  call, so the array is passed in and returned; a \<open>throw\<close> is \<open>Inl\<close>.
\<close>

fun traverse ::
    "MerkleNode \<Rightarrow> MerkleNode \<Rightarrow> MerkleProof \<Rightarrow> error + bool \<times> MerkleProof" where
  "traverse targetLeaf (MerkleNode ref h l r lf d) proof =
     (if lf then Inr (ref = oid targetLeaf, proof)
      else case (l, r) of
        (Some lc, Some rc) \<Rightarrow>
          (case traverse targetLeaf lc proof of
             Inl e \<Rightarrow> Inl e
           | Inr (True, proof1) \<Rightarrow>
               Inr (True, proof1 @ [\<lparr>siblingHash = node_hash rc, direction = Right\<rparr>])
           | Inr (False, proof1) \<Rightarrow>
               (case traverse targetLeaf rc proof1 of
                  Inl e \<Rightarrow> Inl e
                | Inr (True, proof2) \<Rightarrow>
                    Inr (True, proof2 @ [\<lparr>siblingHash = node_hash lc, direction = Left\<rparr>])
                | Inr (False, proof2) \<Rightarrow> Inr (False, proof2)))
      | _ \<Rightarrow> Inl MalformedTree)"

definition generateProof :: "MerkleNode \<Rightarrow> MerkleNode \<Rightarrow> error + MerkleProof" where
  "generateProof rt targetLeaf =
     (case traverse targetLeaf rt [] of
        Inl e \<Rightarrow> Inl e
      | Inr (found, proof) \<Rightarrow> Inr proof)"

text \<open>\<open>getProof\<close>, for an index that is an integer.\<close>

definition getProof :: "MerkleTree \<Rightarrow> int \<Rightarrow> error + MerkleProof" where
  "getProof t index =
     (if index < 0 \<or> index \<ge> int (length (leaves t)) then Inl IndexOutOfRange
      else generateProof (root t) (leaves t ! nat index))"

section \<open>MerkleTree.verifyProof\<close>

text \<open>The \<open>for (const step of proof)\<close> loop, on the running \<open>computedHash\<close>.\<close>

fun verifyLoop :: "platform \<Rightarrow> jsstring \<Rightarrow> MerkleProof \<Rightarrow> error + jsstring" where
  "verifyLoop P computedHash [] = Inr computedHash"
| "verifyLoop P computedHash (step # rest) =
     (case (if direction step = Left then hash P (siblingHash step @ computedHash)
            else hash P (computedHash @ siblingHash step)) of
        Inl e \<Rightarrow> Inl e
      | Inr computedHash' \<Rightarrow> verifyLoop P computedHash' rest)"

definition verifyProof :: "platform \<Rightarrow> jsstring \<Rightarrow> MerkleProof \<Rightarrow> jsstring \<Rightarrow> error + bool" where
  "verifyProof P d proof rootHash =
     (case hash P d of
        Inl e \<Rightarrow> Inl e
      | Inr computedHash0 \<Rightarrow>
          (case verifyLoop P computedHash0 proof of
             Inl e \<Rightarrow> Inl e
           | Inr computedHash \<Rightarrow> Inr (computedHash = rootHash)))"

section \<open>Notions used to state and prove the properties\<close>

text \<open>The hash of a string on a platform whose digest is \<open>dg\<close>, as a total function.\<close>

definition digest_hex :: "platform \<Rightarrow> (byte list \<Rightarrow> byte list) \<Rightarrow> jsstring \<Rightarrow> jsstring" where
  "digest_hex P dg s = hex (dg (encode P s))"

text \<open>All node objects reachable from a node, the node itself first.\<close>

fun nodes_of :: "MerkleNode \<Rightarrow> MerkleNode list" where
  "nodes_of (MerkleNode ref h l r lf d) =
     MerkleNode ref h l r lf d
       # (case l of None \<Rightarrow> [] | Some a \<Rightarrow> nodes_of a)
       @ (case r of None \<Rightarrow> [] | Some b \<Rightarrow> nodes_of b)"

text \<open>
  \<open>contains t n\<close>: a leaf whose identity is \<open>t\<close> lies below \<open>n\<close>, both children of every
  internal node on the way being present.
\<close>

fun contains :: "nat \<Rightarrow> MerkleNode \<Rightarrow> bool" where
  "contains t (MerkleNode ref h l r lf d) =
     (if lf then ref = t
      else case (l, r) of
        (Some a, Some b) \<Rightarrow> contains t a \<or> contains t b
      | _ \<Rightarrow> False)"

text \<open>
  The chain of nodes from the leftmost leaf of identity \<open>t\<close> below \<open>n\<close> up to \<open>n\<close>, and
  the sibling steps along it.
\<close>

fun chain_to :: "nat \<Rightarrow> MerkleNode \<Rightarrow> MerkleNode list" where
  "chain_to t (MerkleNode ref h l r lf d) =
     (if lf then [MerkleNode ref h l r lf d]
      else case (l, r) of
        (Some a, Some b) \<Rightarrow>
          (if contains t a then chain_to t a else chain_to t b) @ [MerkleNode ref h l r lf d]
      | _ \<Rightarrow> [MerkleNode ref h l r lf d])"

fun path_to :: "nat \<Rightarrow> MerkleNode \<Rightarrow> MerkleProof" where
  "path_to t (MerkleNode ref h l r lf d) =
     (if lf then []
      else case (l, r) of
        (Some a, Some b) \<Rightarrow>
          (if contains t a
           then path_to t a @ [\<lparr>siblingHash = node_hash b, direction = Right\<rparr>]
           else path_to t b @ [\<lparr>siblingHash = node_hash a, direction = Left\<rparr>])
      | _ \<Rightarrow> [])"

text \<open>
  \<open>steps_along chain proof\<close>: \<open>chain\<close> lists a node, its parent, its grandparent and so
  on, and the \<open>k\<close>-th step of \<open>proof\<close> records the other child of the \<open>k\<close>-th parent: its
  hash, and \<open>Right\<close> if that other child is the right child, \<open>Left\<close> if it is the left one.
\<close>

fun steps_along :: "MerkleNode list \<Rightarrow> MerkleProof \<Rightarrow> bool" where
  "steps_along [a] [] = True"
| "steps_along (a # b # rest) (s # ss) =
     ((case (left b, right b) of
         (Some l, Some r) \<Rightarrow>
           (l = a \<and> s = \<lparr>siblingHash = node_hash r, direction = Right\<rparr>) \<or>
           (r = a \<and> s = \<lparr>siblingHash = node_hash l, direction = Left\<rparr>)
       | _ \<Rightarrow> False)
      \<and> steps_along (b # rest) ss)"
| "steps_along _ _ = False"

text \<open>The height of a node: the number of edges on the longest way down to a childless node.\<close>

fun height :: "MerkleNode \<Rightarrow> nat" where
  "height (MerkleNode ref h l r lf d) =
     max (case l of None \<Rightarrow> 0 | Some a \<Rightarrow> Suc (height a))
         (case r of None \<Rightarrow> 0 | Some b \<Rightarrow> Suc (height b))"

text \<open>
  One pass of the \<open>for\<close> loop of \<open>buildTree\<close> over a whole level, by recursion on the
  level, when every call of \<open>hash\<close> returns: \<open>H\<close> is the hash, the number is the next
  free identity. \<open>pairLoop_pairUp\<close> below proves that the loop computes it.
\<close>

fun pairUp :: "(jsstring \<Rightarrow> jsstring) \<Rightarrow> MerkleNode list \<Rightarrow> nat \<Rightarrow> MerkleNode list \<times> nat" where
  "pairUp H [] k = ([], k)"
| "pairUp H [l] k =
     ([new_MerkleNode (k + 1) (H (node_hash l @ node_hash l)) (Some l)
         (Some (new_MerkleNode k (node_hash l) None None None)) None], k + 2)"
| "pairUp H (l # r # rest) k =
     (new_MerkleNode k (H (node_hash l @ node_hash r)) (Some l) (Some r) None
        # fst (pairUp H rest (k + 1)),
      snd (pairUp H rest (k + 1)))"

text \<open>One step of \<open>verifyProof\<close>'s loop when \<open>hash\<close> returns, \<open>H\<close> being the hash.\<close>

definition step_hash :: "(jsstring \<Rightarrow> jsstring) \<Rightarrow> jsstring \<Rightarrow> MerkleProofStep \<Rightarrow> jsstring" where
  "step_hash H computed step =
     (if direction step = Left then H (siblingHash step @ computed)
      else H (computed @ siblingHash step))"

text \<open>
  What holds of every node object \<open>m\<close> of a tree under construction over the leaf
  objects \<open>lvs\<close>: \<open>isLeaf\<close> says that there is no child, children come in pairs, the hash
  of a parent is the hash of its children's hashes joined, and a leaf whose identity is
  that of one of \<open>lvs\<close> is that object.
\<close>

definition node_ok :: "(jsstring \<Rightarrow> jsstring) \<Rightarrow> MerkleNode list \<Rightarrow> MerkleNode \<Rightarrow> bool" where
  "node_ok H lvs m \<longleftrightarrow>
     (isLeaf m \<longleftrightarrow> left m = None \<and> right m = None) \<and>
     (left m = None \<longleftrightarrow> right m = None) \<and>
     (\<forall>l r. left m = Some l \<longrightarrow> right m = Some r \<longrightarrow>
        node_hash m = H (node_hash l @ node_hash r)) \<and>
     (isLeaf m \<longrightarrow> oid m < length lvs \<longrightarrow> m = lvs ! oid m)"

text \<open>
  The invariant of \<open>buildTree\<close>'s recursion: \<open>ns\<close> is the level passed to the \<open>lvl\<close>-th
  call, \<open>k\<close> the next free identity.
\<close>

definition level_inv ::
    "(jsstring \<Rightarrow> jsstring) \<Rightarrow> MerkleNode list \<Rightarrow> nat \<Rightarrow> MerkleNode list \<Rightarrow> nat \<Rightarrow> bool" where
  "level_inv H lvs lvl ns k \<longleftrightarrow>
     length lvs \<le> k \<and>
     (\<forall>n\<in>set ns. \<forall>m\<in>set (nodes_of n). node_ok H lvs m \<and> oid m < k) \<and>
     (\<forall>t<length lvs. \<exists>n\<in>set ns. contains t n) \<and>
     (\<forall>n\<in>set ns. height n = lvl \<and>
        (\<forall>t<length lvs. contains t n \<longrightarrow> length (path_to t n) = lvl)) \<and>
     2 ^ lvl * (length ns - 1) < length lvs \<and> length lvs \<le> 2 ^ lvl * length ns \<and>
     (0 < lvl \<longrightarrow> 2 ^ (lvl - 1) < length lvs)"

text \<open>The leaf objects \<open>build\<close> makes from the items and their hashes.\<close>

definition leaf_nodes :: "jsstring list \<Rightarrow> jsstring list \<Rightarrow> MerkleNode list" where
  "leaf_nodes hashes dataItems =
     map (\<lambda>i. new_MerkleNode i (hashes ! i) None None (Some (dataItems ! i)))
       [0..<length dataItems]"

text \<open>The identities of all node objects reachable from the nodes of a level.\<close>

definition oids :: "MerkleNode list \<Rightarrow> nat list" where
  "oids ns = concat (map (\<lambda>n. map oid (nodes_of n)) ns)"

text \<open>
  The traversal of \<open>generateProof\<close> as a sequence of calls. \<open>calls n\<close> lists the nodes
  that \<open>traverse\<close> would be called on from \<open>n\<close> if no call ended the traversal: depth
  first, the left child before the right one, nothing below a leaf and nothing below a
  node that is not a leaf and misses a child. Such a node is \<open>malformed\<close>. The traversal
  ends at the first call on the target leaf (every pending call then returns true) or on
  a malformed node (the call throws); \<open>encountered target n\<close> lists the calls made up to
  and including that one.
\<close>

fun calls :: "MerkleNode \<Rightarrow> MerkleNode list" where
  "calls (MerkleNode ref h l r lf d) =
     MerkleNode ref h l r lf d #
       (if lf then []
        else case (l, r) of
          (Some a, Some b) \<Rightarrow> calls a @ calls b
        | _ \<Rightarrow> [])"

definition malformed :: "MerkleNode \<Rightarrow> bool" where
  "malformed m \<longleftrightarrow> \<not> isLeaf m \<and> (left m = None \<or> right m = None)"

definition ends_traversal :: "MerkleNode \<Rightarrow> MerkleNode \<Rightarrow> bool" where
  "ends_traversal targetLeaf m \<longleftrightarrow> (isLeaf m \<and> oid m = oid targetLeaf) \<or> malformed m"

fun upto_first :: "('a \<Rightarrow> bool) \<Rightarrow> 'a list \<Rightarrow> 'a list" where
  "upto_first P [] = []"
| "upto_first P (x # xs) = (if P x then [x] else x # upto_first P xs)"

definition encountered :: "MerkleNode \<Rightarrow> MerkleNode \<Rightarrow> MerkleNode list" where
  "encountered targetLeaf n = upto_first (ends_traversal targetLeaf) (calls n)"

declare pairLoop.simps [simp del] toString16.simps [simp del] buildTree.simps [code]

section \<open>The loop of buildTree and the invariant of its recursion\<close>

lemma hash_digest: "subtle_digest P = Some dg \<Longrightarrow> hash P s = Inr (digest_hex P dg s)"
  by (simp add: hash_def digest_hex_def)

lemma hash_no_digest: "subtle_digest P = None \<Longrightarrow> hash P s = Inl NoCrypto"
  by (simp add: hash_def)

lemma pairLoop_pairUp:
  "subtle_digest P = Some dg \<Longrightarrow>
   pairLoop P nodes i acc k =
     Inr (acc @ fst (pairUp (digest_hex P dg) (drop i nodes) k),
          snd (pairUp (digest_hex P dg) (drop i nodes) k))"
proof (induction P nodes i acc k rule: pairLoop.induct)
  case (1 P nodes i nextLevel fresh)
  note dg = "1.prems"
  show ?case
  proof (cases "i < length nodes")
    case False
    then show ?thesis by (simp add: pairLoop.simps[of P nodes i])
  next
    case True
    note i = True
    show ?thesis
    proof (cases "i + 1 < length nodes")
      case True
      have d: "drop i nodes = nodes ! i # nodes ! (i + 1) # drop (i + 2) nodes"
        using True by (simp add: Cons_nth_drop_Suc)
      have h: "hash P (node_hash (nodes ! i) @ node_hash (nodes ! (i + 1))) =
                 Inr (digest_hex P dg (node_hash (nodes ! i) @ node_hash (nodes ! (i + 1))))"
        using dg by (rule hash_digest)
      note IH = "1.IH"[OF i refl refl, of "nodes ! (i + 1)" fresh, OF _ h dg]
      show ?thesis
        using True i IH
        by (subst pairLoop.simps) (simp add: d hash_digest[OF dg] Let_def)
    next
      case False
      have d: "drop i nodes = [nodes ! i]"
        using False i by (metis Cons_nth_drop_Suc Suc_eq_plus1 drop_all linorder_not_less)
      let ?r = "new_MerkleNode fresh (node_hash (nodes ! i)) None None None"
      have h: "hash P (node_hash (nodes ! i) @ node_hash ?r) =
                 Inr (digest_hex P dg (node_hash (nodes ! i) @ node_hash ?r))"
        using dg by (rule hash_digest)
      have nh: "node_hash ?r = node_hash (nodes ! i)" by (simp add: new_MerkleNode_def)
      note IH = "1.IH"[OF i refl refl, of ?r "fresh + 1", OF _ h dg]
      show ?thesis
        using False i IH
        by (subst pairLoop.simps) (simp add: d hash_digest[OF dg] nh Let_def)
    qed
  qed
qed


lemma length_pairUp: "length (fst (pairUp H ns k)) = (length ns + 1) div 2"
  by (induction H ns k rule: pairUp.induct) auto

lemma pairUp_fresh_le: "k \<le> snd (pairUp H ns k)"
  by (induction H ns k rule: pairUp.induct) auto

lemma pairUp_shape:
  "p \<in> set (fst (pairUp H ns k)) \<Longrightarrow>
   \<exists>l r j. l \<in> set ns \<and>
     (r \<in> set ns \<or>
      (\<exists>j'. k \<le> j' \<and> j' < snd (pairUp H ns k) \<and> r = new_MerkleNode j' (node_hash l) None None None)) \<and>
     k \<le> j \<and> j < snd (pairUp H ns k) \<and>
     p = new_MerkleNode j (H (node_hash l @ node_hash r)) (Some l) (Some r) None"
proof (induction H ns k rule: pairUp.induct)
  case (1 H k)
  then show ?case by simp
next
  case (2 H l k)
  then show ?case by (auto simp: new_MerkleNode_def)
next
  case (3 H l r rest k)
  have le: "k + 1 \<le> snd (pairUp H rest (k + 1))" by (rule pairUp_fresh_le)
  from "3.prems" consider
      "p = new_MerkleNode k (H (node_hash l @ node_hash r)) (Some l) (Some r) None"
    | "p \<in> set (fst (pairUp H rest (k + 1)))" by auto
  then show ?case
  proof cases
    case 1
    then show ?thesis using le
      by - (rule exI[of _ l], rule exI[of _ r], rule exI[of _ k], simp)
  next
    case 2
    from "3.IH"[OF 2] obtain l' r' j where
      l': "l' \<in> set rest" and
      r': "r' \<in> set rest \<or> (\<exists>j'. k + 1 \<le> j' \<and> j' < snd (pairUp H rest (k + 1)) \<and>
          r' = new_MerkleNode j' (node_hash l') None None None)" and
      j: "k + 1 \<le> j" "j < snd (pairUp H rest (k + 1))" and
      p: "p = new_MerkleNode j (H (node_hash l' @ node_hash r')) (Some l') (Some r') None"
      by blast
    from r' have "r' \<in> set (l # r # rest) \<or>
        (\<exists>j'. k \<le> j' \<and> j' < snd (pairUp H (l # r # rest) k) \<and>
          r' = new_MerkleNode j' (node_hash l') None None None)"
    proof
      assume "r' \<in> set rest"
      then show ?thesis by simp
    next
      assume "\<exists>j'. k + 1 \<le> j' \<and> j' < snd (pairUp H rest (k + 1)) \<and>
          r' = new_MerkleNode j' (node_hash l') None None None"
      then obtain j' where "k + 1 \<le> j'" "j' < snd (pairUp H rest (k + 1))"
          "r' = new_MerkleNode j' (node_hash l') None None None" by blast
      then have "k \<le> j' \<and> j' < snd (pairUp H (l # r # rest) k) \<and>
          r' = new_MerkleNode j' (node_hash l') None None None" by simp
      then show ?thesis by blast
    qed
    with l' j p show ?thesis
      by - (rule exI[of _ l'], rule exI[of _ r'], rule exI[of _ j], simp)
  qed
qed

lemma buildTree_rule:
  assumes dg: "subtle_digest P = Some dg"
    and step: "\<And>lvl ns k. Q lvl ns k \<Longrightarrow> 2 \<le> length ns \<Longrightarrow>
        Q (Suc lvl) (fst (pairUp (digest_hex P dg) ns k)) (snd (pairUp (digest_hex P dg) ns k))"
  shows "ns \<noteq> [] \<Longrightarrow> Q lvl ns k \<Longrightarrow>
         \<exists>rt k' lvl'. buildTree P ns k = Some (Inr (rt, k')) \<and> Q lvl' [rt] k'"
proof (induction "length ns" arbitrary: ns lvl k rule: less_induct)
  case less
  show ?case
  proof (cases "length ns = 1")
    case True
    then obtain rt where "ns = [rt]" by (cases ns) auto
    then show ?thesis using less.prems by (subst buildTree.simps) auto
  next
    case False
    moreover have "length ns \<noteq> 0" using less.prems by simp
    ultimately have two: "2 \<le> length ns" by arith
    let ?ns' = "fst (pairUp (digest_hex P dg) ns k)"
    let ?k' = "snd (pairUp (digest_hex P dg) ns k)"
    have shorter: "length ?ns' < length ns" using two by (simp add: length_pairUp)
    have nonempty: "?ns' \<noteq> []" using two by (simp add: length_pairUp flip: length_greater_0_conv)
    have Q': "Q (Suc lvl) ?ns' ?k'" using less.prems two by (intro step)
    from less.hyps[OF shorter nonempty Q'] obtain rt k' lvl' where
      "buildTree P ?ns' ?k' = Some (Inr (rt, k'))" "Q lvl' [rt] k'" by blast
    then show ?thesis
      using False by (subst buildTree.simps) (auto simp: pairLoop_pairUp[OF dg] case_prod_beta)
  qed
qed

lemma traverse_path:
  "\<forall>m\<in>set (nodes_of n). \<not> isLeaf m \<longrightarrow> left m \<noteq> None \<and> right m \<noteq> None \<Longrightarrow>
   traverse tg n p =
     Inr (contains (oid tg) n, if contains (oid tg) n then p @ path_to (oid tg) n else p)"
proof (induction n arbitrary: p)
  case (MerkleNode ref h l r lf d)
  show ?case
  proof (cases lf)
    case True
    then show ?thesis by simp
  next
    case False
    with MerkleNode.prems obtain a b where lr: "l = Some a" "r = Some b" by auto
    have A: "\<And>q. traverse tg a q =
        Inr (contains (oid tg) a, if contains (oid tg) a then q @ path_to (oid tg) a else q)"
      using MerkleNode.IH(1)[of a] MerkleNode.prems lr by simp
    have B: "\<And>q. traverse tg b q =
        Inr (contains (oid tg) b, if contains (oid tg) b then q @ path_to (oid tg) b else q)"
      using MerkleNode.IH(2)[of b] MerkleNode.prems lr by simp
    show ?thesis using False lr by (simp add: A B)
  qed
qed


lemma verifyLoop_fold:
  "subtle_digest P = Some dg \<Longrightarrow>
   verifyLoop P c steps = Inr (foldl (step_hash (digest_hex P dg)) c steps)"
  by (induction steps arbitrary: c) (simp_all add: hash_digest step_hash_def)

lemma verifyProof_fold:
  "subtle_digest P = Some dg \<Longrightarrow>
   verifyProof P d steps rootHash =
     Inr (foldl (step_hash (digest_hex P dg)) (digest_hex P dg d) steps = rootHash)"
  by (simp add: verifyProof_def hash_digest verifyLoop_fold)

lemma hashAll_map:
  "subtle_digest P = Some dg \<Longrightarrow> hashAll P items = Inr (map (digest_hex P dg) items)"
  by (induction items) (simp_all add: hash_digest)

lemma hashAll_no_digest:
  "subtle_digest P = None \<Longrightarrow> items \<noteq> [] \<Longrightarrow> hashAll P items = Inl NoCrypto"
  by (cases items) (simp_all add: hash_no_digest)

lemma step_hash_simps [simp]:
  "step_hash H c \<lparr>siblingHash = s, direction = Left\<rparr> = H (s @ c)"
  "step_hash H c \<lparr>siblingHash = s, direction = Right\<rparr> = H (c @ s)"
  by (simp_all add: step_hash_def)

lemma fold_path:
  assumes "\<forall>m\<in>set (nodes_of n).
             (isLeaf m \<longrightarrow> oid m = t \<longrightarrow> node_hash m = h) \<and>
             (\<forall>l r. left m = Some l \<longrightarrow> right m = Some r \<longrightarrow>
                node_hash m = H (node_hash l @ node_hash r))"
    and "contains t n"
  shows "foldl (step_hash H) h (path_to t n) = node_hash n"
  using assms
proof (induction n)
  case (MerkleNode ref hh l r lf d)
  show ?case
  proof (cases lf)
    case True
    then show ?thesis using MerkleNode.prems by simp
  next
    case False
    with MerkleNode.prems(2) obtain a b where lr: "l = Some a" "r = Some b"
      by (auto split: option.splits)
    have hh: "hh = H (node_hash a @ node_hash b)"
      using MerkleNode.prems(1) lr by simp
    show ?thesis
    proof (cases "contains t a")
      case True
      have "foldl (step_hash H) h (path_to t a) = node_hash a"
        using MerkleNode.IH(1)[of a] MerkleNode.prems(1) lr True by simp
      then show ?thesis using False lr True hh by simp
    next
      case nota: False
      then have cb: "contains t b" using MerkleNode.prems(2) False lr by simp
      have "foldl (step_hash H) h (path_to t b) = node_hash b"
        using MerkleNode.IH(2)[of b] MerkleNode.prems(1) lr cb by simp
      then show ?thesis using False lr nota hh by simp
    qed
  qed
qed


lemma length_leaf_nodes [simp]: "length (leaf_nodes hs items) = length items"
  by (simp add: leaf_nodes_def)

lemma nth_leaf_nodes [simp]:
  "i < length items \<Longrightarrow>
   leaf_nodes hs items ! i = MerkleNode i (hs ! i) None None True (Some (items ! i))"
  by (simp add: leaf_nodes_def new_MerkleNode_def)

lemma level_inv_init:
  assumes "items \<noteq> []"
  shows "level_inv H (leaf_nodes hs items) 0 (leaf_nodes hs items) (length items)"
proof -
  let ?lvs = "leaf_nodes hs items"
  have elem: "\<exists>i<length items. n = MerkleNode i (hs ! i) None None True (Some (items ! i))"
    if "n \<in> set ?lvs" for n
    using that by (auto simp: in_set_conv_nth)
  have 1: "\<forall>n\<in>set ?lvs. \<forall>m\<in>set (nodes_of n). node_ok H ?lvs m \<and> oid m < length items"
    using elem by (fastforce simp: node_ok_def)
  have 2: "\<forall>t<length ?lvs. \<exists>n\<in>set ?lvs. contains t n"
  proof (intro allI impI)
    fix t assume t: "t < length ?lvs"
    then have "?lvs ! t \<in> set ?lvs" by (rule nth_mem)
    moreover have "contains t (?lvs ! t)" using t by simp
    ultimately show "\<exists>n\<in>set ?lvs. contains t n" by blast
  qed
  have 3: "\<forall>n\<in>set ?lvs. height n = 0 \<and>
        (\<forall>t<length ?lvs. contains t n \<longrightarrow> length (path_to t n) = 0)"
    using elem by fastforce
  have 4: "2 ^ 0 * (length ?lvs - 1) < length ?lvs" using assms by simp
  show ?thesis
    unfolding level_inv_def using 1 2 3 4 by simp
qed

lemma pairUp_contains:
  "n \<in> set ns \<Longrightarrow> contains t n \<Longrightarrow> \<exists>p\<in>set (fst (pairUp H ns k)). contains t p"
  by (induction H ns k rule: pairUp.induct) (auto simp: new_MerkleNode_def)

lemma level_inv_step:
  assumes inv: "level_inv H lvs lvl ns k" and two: "2 \<le> length ns"
  shows "level_inv H lvs (Suc lvl) (fst (pairUp H ns k)) (snd (pairUp H ns k))"
proof -
  let ?ps = "fst (pairUp H ns k)" and ?k' = "snd (pairUp H ns k)"
  from inv have k: "length lvs \<le> k"
    and allnodes: "\<forall>n\<in>set ns. \<forall>m\<in>set (nodes_of n). node_ok H lvs m \<and> oid m < k"
    and allcont: "\<forall>t<length lvs. \<exists>n\<in>set ns. contains t n"
    and allht: "\<forall>n\<in>set ns. height n = lvl \<and>
        (\<forall>t<length lvs. contains t n \<longrightarrow> length (path_to t n) = lvl)"
    and lo: "2 ^ lvl * (length ns - 1) < length lvs"
    and hi: "length lvs \<le> 2 ^ lvl * length ns"
    by (simp_all add: level_inv_def)
  have nodes: "node_ok H lvs m \<and> oid m < k" if "n \<in> set ns" "m \<in> set (nodes_of n)" for n m
    using allnodes that by blast
  have cont: "\<exists>n\<in>set ns. contains t n" if "t < length lvs" for t
    using allcont that by blast
  have ht: "height n = lvl" if "n \<in> set ns" for n
    using allht that by blast
  have pl: "length (path_to t n) = lvl" if "n \<in> set ns" "t < length lvs" "contains t n" for n t
    using allht that by blast
  have kk': "k \<le> ?k'" by (rule pairUp_fresh_le)
  have 0: "length lvs \<le> ?k'" using k kk' by simp
  have 1: "node_ok H lvs m \<and> oid m < ?k'" if p: "p \<in> set ?ps" and m: "m \<in> set (nodes_of p)" for p m
  proof -
    from pairUp_shape[OF p] obtain l r j where
      l: "l \<in> set ns" and
      r: "r \<in> set ns \<or> (\<exists>j'. k \<le> j' \<and> j' < ?k' \<and> r = new_MerkleNode j' (node_hash l) None None None)" and
      j: "k \<le> j" "j < ?k'" and
      pe: "p = new_MerkleNode j (H (node_hash l @ node_hash r)) (Some l) (Some r) None"
      by blast
    from m pe consider "m = p" | "m \<in> set (nodes_of l)" | "m \<in> set (nodes_of r)"
      by (auto simp: new_MerkleNode_def)
    then show ?thesis
    proof cases
      case 1
      then show ?thesis using pe j by (simp add: node_ok_def new_MerkleNode_def)
    next
      case 2
      then show ?thesis using nodes[OF l] kk' by fastforce
    next
      case 3
      from r show ?thesis
      proof
        assume "r \<in> set ns"
        then show ?thesis using nodes 3 kk' by fastforce
      next
        assume "\<exists>j'. k \<le> j' \<and> j' < ?k' \<and> r = new_MerkleNode j' (node_hash l) None None None"
        then obtain j' where "k \<le> j'" "j' < ?k'" "r = new_MerkleNode j' (node_hash l) None None None"
          by blast
        then show ?thesis using 3 k by (simp add: node_ok_def new_MerkleNode_def)
      qed
    qed
  qed
  have 2: "\<exists>p\<in>set ?ps. contains t p" if "t < length lvs" for t
    using cont[OF that] pairUp_contains by blast
  have 3: "height p = Suc lvl \<and> (\<forall>t<length lvs. contains t p \<longrightarrow> length (path_to t p) = Suc lvl)"
    if p: "p \<in> set ?ps" for p
  proof -
    from pairUp_shape[OF p] obtain l r j where
      l: "l \<in> set ns" and
      r: "r \<in> set ns \<or> (\<exists>j'. k \<le> j' \<and> j' < ?k' \<and> r = new_MerkleNode j' (node_hash l) None None None)" and
      pe: "p = new_MerkleNode j (H (node_hash l @ node_hash r)) (Some l) (Some r) None"
      by blast
    from r show ?thesis
    proof
      assume r: "r \<in> set ns"
      show ?thesis using pe ht[OF l] ht[OF r] pl[OF l] pl[OF r]
        by (auto simp: new_MerkleNode_def)
    next
      assume "\<exists>j'. k \<le> j' \<and> j' < ?k' \<and> r = new_MerkleNode j' (node_hash l) None None None"
      then obtain j' where j': "k \<le> j'" and re: "r = new_MerkleNode j' (node_hash l) None None None"
        by blast
      have hr: "height r = 0" using re by (simp add: new_MerkleNode_def)
      have nc: "\<not> contains t r" if "t < length lvs" for t
        using re j' k that by (simp add: new_MerkleNode_def)
      show ?thesis using pe ht[OF l] hr pl[OF l] nc
        by (auto simp: new_MerkleNode_def)
    qed
  qed
  have len: "length ?ps = (length ns + 1) div 2" by (rule length_pairUp)
  have a1: "2 * (length ?ps - 1) \<le> length ns - 1" using two len by simp
  have "2 ^ Suc lvl * (length ?ps - 1) = 2 ^ lvl * (2 * (length ?ps - 1))" by simp
  also have "\<dots> \<le> 2 ^ lvl * (length ns - 1)" using a1 by (rule mult_le_mono2)
  also have "\<dots> < length lvs" by (rule lo)
  finally have 4: "2 ^ Suc lvl * (length ?ps - 1) < length lvs" .
  have a2: "length ns \<le> 2 * length ?ps" using len by simp
  have "length lvs \<le> 2 ^ lvl * length ns" by (rule hi)
  also have "\<dots> \<le> 2 ^ lvl * (2 * length ?ps)" using a2 by (rule mult_le_mono2)
  finally have 5: "length lvs \<le> 2 ^ Suc lvl * length ?ps" by simp
  have "1 \<le> length ns - 1" using two by simp
  then have "(2::nat) ^ lvl * 1 \<le> 2 ^ lvl * (length ns - 1)" by (rule mult_le_mono2)
  then have "(2::nat) ^ lvl \<le> 2 ^ lvl * (length ns - 1)" by (simp only: mult_1_right)
  then have 6: "2 ^ lvl < length lvs" using lo by (rule le_less_trans)
  show ?thesis
    unfolding level_inv_def using 0 1 2 3 4 5 6 by simp
qed


lemma build_ok:
  assumes dg: "subtle_digest P = Some dg" and ne: "items \<noteq> []"
  shows "\<exists>rt lvl k.
           build P items =
             Some (Inr \<lparr>root = rt,
                        leaves = leaf_nodes (map (digest_hex P dg) items) items,
                        leafMap = foldl addLeaf Map.empty
                                    (leaf_nodes (map (digest_hex P dg) items) items)\<rparr>) \<and>
           level_inv (digest_hex P dg) (leaf_nodes (map (digest_hex P dg) items) items) lvl [rt] k"
proof -
  let ?H = "digest_hex P dg"
  let ?lvs = "leaf_nodes (map ?H items) items"
  have "?lvs \<noteq> []" using ne by (simp flip: length_greater_0_conv)
  moreover have "level_inv ?H ?lvs 0 ?lvs (length items)" using ne by (rule level_inv_init)
  ultimately obtain rt k lvl where
    bt: "buildTree P ?lvs (length items) = Some (Inr (rt, k))" and inv: "level_inv ?H ?lvs lvl [rt] k"
    using buildTree_rule[where Q = "level_inv ?H ?lvs", OF dg level_inv_step] by blast
  have "build P items =
          Some (Inr \<lparr>root = rt, leaves = ?lvs, leafMap = foldl addLeaf Map.empty ?lvs\<rparr>)"
    using ne bt unfolding build_def by (simp add: hashAll_map[OF dg] leaf_nodes_def Let_def)
  with inv show ?thesis by blast
qed

lemma root_inv:
  assumes inv: "level_inv H lvs lvl [rt] k"
  shows "\<forall>m\<in>set (nodes_of rt). node_ok H lvs m \<and> oid m < k"
    and "\<forall>t<length lvs. contains t rt \<and> length (path_to t rt) = lvl"
    and "height rt = lvl"
    and "length lvs \<le> 2 ^ lvl" and "0 < lvl \<Longrightarrow> 2 ^ (lvl - 1) < length lvs"
  using inv unfolding level_inv_def by auto

lemma generateProof_path:
  assumes "\<forall>m\<in>set (nodes_of rt). node_ok H lvs m"
  shows "generateProof rt tg = Inr (if contains (oid tg) rt then path_to (oid tg) rt else [])"
proof -
  have "\<forall>m\<in>set (nodes_of rt). \<not> isLeaf m \<longrightarrow> left m \<noteq> None \<and> right m \<noteq> None"
    using assms by (auto simp: node_ok_def)
  then show ?thesis
    by (simp add: generateProof_def traverse_path)
qed

section \<open>A proof of a leaf verifies against the root\<close>

text \<open>
  Claim C1. For every non-empty list of strings \<open>items\<close> and every index \<open>i\<close> with
  \<open>0 \<le> i < items.length\<close>, on a platform that provides the digest, \<open>build(items)\<close>
  returns a tree, \<open>getProof(i)\<close> returns a proof, and
  \<open>verifyProof(items[i], getProof(i), getRootHash())\<close> returns true.
\<close>

theorem proof_verifies:
  assumes dg: "subtle_digest P = Some dg" and ne: "items \<noteq> []" and i: "i < length items"
  shows "\<exists>t proof. build P items = Some (Inr t) \<and> getProof t (int i) = Inr proof \<and>
           verifyProof P (items ! i) proof (getRootHash t) = Inr True"
proof -
  let ?H = "digest_hex P dg"
  let ?lvs = "leaf_nodes (map ?H items) items"
  from build_ok[OF dg ne] obtain rt lvl k where
    b: "build P items =
          Some (Inr \<lparr>root = rt, leaves = ?lvs, leafMap = foldl addLeaf Map.empty ?lvs\<rparr>)"
    and inv: "level_inv ?H ?lvs lvl [rt] k" by blast
  let ?t = "\<lparr>root = rt, leaves = ?lvs, leafMap = foldl addLeaf Map.empty ?lvs\<rparr>"
  note ok = root_inv(1)[OF inv]
  have c: "contains i rt" using root_inv(2)[OF inv] i by simp
  have oi: "oid (?lvs ! i) = i" using i by simp
  have gp: "getProof ?t (int i) = Inr (path_to i rt)"
    using i c ok oi by (simp add: getProof_def generateProof_path[where H = ?H and lvs = ?lvs])
  have hyp: "\<forall>m\<in>set (nodes_of rt).
             (isLeaf m \<longrightarrow> oid m = i \<longrightarrow> node_hash m = ?H (items ! i)) \<and>
             (\<forall>l r. left m = Some l \<longrightarrow> right m = Some r \<longrightarrow>
                node_hash m = ?H (node_hash l @ node_hash r))"
  proof
    fix m assume "m \<in> set (nodes_of rt)"
    then have m: "node_ok ?H ?lvs m" using ok by blast
    have "node_hash m = ?H (items ! i)" if "isLeaf m" "oid m = i"
    proof -
      have "m = ?lvs ! i" using m that i by (simp add: node_ok_def)
      then show ?thesis using i by simp
    qed
    then show "(isLeaf m \<longrightarrow> oid m = i \<longrightarrow> node_hash m = ?H (items ! i)) \<and>
             (\<forall>l r. left m = Some l \<longrightarrow> right m = Some r \<longrightarrow>
                node_hash m = ?H (node_hash l @ node_hash r))"
      using m by (simp add: node_ok_def)
  qed
  have "foldl (step_hash ?H) (?H (items ! i)) (path_to i rt) = node_hash rt"
    using hyp c by (rule fold_path)
  then have "verifyProof P (items ! i) (path_to i rt) (getRootHash ?t) = Inr True"
    by (simp add: verifyProof_fold[OF dg] getRootHash_def)
  with b gp show ?thesis by blast
qed

theorem proof_verifies_witness:
  "\<exists>t proof. build browser [js ''a'', js ''b'', js ''c''] = Some (Inr t) \<and>
     getProof t (int 2) = Inr proof \<and>
     verifyProof browser ([js ''a'', js ''b'', js ''c''] ! 2) proof (getRootHash t) = Inr True"
proof -
  have "subtle_digest browser = Some sha256" by (simp add: browser_def)
  moreover have "[js ''a'', js ''b'', js ''c''] \<noteq> []" by simp
  moreover have "2 < length [js ''a'', js ''b'', js ''c'']" by simp
  ultimately show ?thesis by (rule proof_verifies)
qed

section \<open>Errors, verification, the single leaf and well-formed trees\<close>

lemma traverse_error: "traverse tg n p = Inl e \<Longrightarrow> e = MalformedTree"
proof (induction n arbitrary: p e)
  case (MerkleNode ref h l r lf d)
  show ?case
  proof (cases "lf")
    case True
    then show ?thesis using MerkleNode.prems by simp
  next
    case False
    show ?thesis
    proof (cases "\<exists>a b. l = Some a \<and> r = Some b")
      case False
      then show ?thesis using MerkleNode.prems \<open>\<not> lf\<close>
        by (auto split: option.splits)
    next
      case True
      then obtain a b where lr: "l = Some a" "r = Some b" by blast
      show ?thesis
      proof (cases "traverse tg a p")
        case (Inl e')
        then have "e' = MalformedTree" using MerkleNode.IH(1)[of a] lr by simp
        then show ?thesis using MerkleNode.prems \<open>\<not> lf\<close> lr Inl by simp
      next
        case (Inr res)
        obtain found p1 where res: "res = (found, p1)" by (cases res)
        show ?thesis
        proof (cases found)
          case True
          then show ?thesis using MerkleNode.prems \<open>\<not> lf\<close> lr Inr res by simp
        next
          case nf: False
          show ?thesis
          proof (cases "traverse tg b p1")
            case (Inl e')
            then have "e' = MalformedTree" using MerkleNode.IH(2)[of b] lr by simp
            then show ?thesis using MerkleNode.prems \<open>\<not> lf\<close> lr Inr res nf Inl by simp
          next
            case inr2: (Inr res2)
            obtain f2 p2 where "res2 = (f2, p2)" by (cases res2)
            then show ?thesis using MerkleNode.prems \<open>\<not> lf\<close> lr Inr res nf inr2
              by (cases f2) simp_all
          qed
        qed
      qed
    qed
  qed
qed

lemma generateProof_error: "generateProof rt tg = Inl e \<Longrightarrow> e = MalformedTree"
  by (auto simp: generateProof_def split: sum.splits dest: traverse_error)

lemma build_not_empty_input: "items \<noteq> [] \<Longrightarrow> build P items \<noteq> Some (Inl EmptyInput)"
proof (cases "subtle_digest P")
  case None
  assume "items \<noteq> []"
  then show ?thesis using None by (simp add: build_def hashAll_no_digest)
next
  case (Some dg)
  assume "items \<noteq> []"
  from build_ok[OF Some this] show ?thesis by auto
qed

text \<open>
  Claim C4. \<open>build\<close> fails with \<open>EmptyInput\<close> exactly when the list of items is empty,
  and \<open>getProof(index)\<close> fails with \<open>IndexOutOfRange\<close> exactly when \<open>index < 0\<close> or
  \<open>index \<ge> leaves.length\<close>; in particular \<open>build([])\<close>, \<open>getProof(-1)\<close> and
  \<open>getProof(leaves.length)\<close> fail so. It holds on every platform and for every tree
  object, \<open>index\<close> being an integer.
\<close>

theorem error_conditions:
  "(build P items = Some (Inl EmptyInput) \<longleftrightarrow> items = []) \<and>
   (getProof t index = Inl IndexOutOfRange \<longleftrightarrow> index < 0 \<or> int (length (leaves t)) \<le> index) \<and>
   build P [] = Some (Inl EmptyInput) \<and>
   getProof t (- 1) = Inl IndexOutOfRange \<and>
   getProof t (int (length (leaves t))) = Inl IndexOutOfRange"
proof -
  have 1: "build P items = Some (Inl EmptyInput) \<longleftrightarrow> items = []"
    using build_not_empty_input[of items P] by (auto simp: build_def)
  have 2: "getProof t index = Inl IndexOutOfRange \<longleftrightarrow> index < 0 \<or> int (length (leaves t)) \<le> index"
    using generateProof_error[of "root t" "leaves t ! nat index" IndexOutOfRange]
    by (auto simp: getProof_def)
  have 3: "build P [] = Some (Inl EmptyInput)" by (simp add: build_def)
  have 4: "getProof t (- 1) = Inl IndexOutOfRange" by (simp add: getProof_def)
  have 5: "getProof t (int (length (leaves t))) = Inl IndexOutOfRange" by (simp add: getProof_def)
  from 1 2 3 4 5 show ?thesis by blast
qed

theorem error_conditions_witness:
  "(build browser [js ''a''] = Some (Inl EmptyInput) \<longleftrightarrow> [js ''a''] = []) \<and>
   (getProof \<lparr>root = MerkleNode 0 [] None None True None,
              leaves = [MerkleNode 0 [] None None True None], leafMap = Map.empty\<rparr> 7
      = Inl IndexOutOfRange \<longleftrightarrow>
    (7::int) < 0 \<or>
    int (length (leaves \<lparr>root = MerkleNode 0 [] None None True None,
              leaves = [MerkleNode 0 [] None None True None], leafMap = Map.empty\<rparr>)) \<le> 7) \<and>
   build browser [] = Some (Inl EmptyInput) \<and>
   getProof \<lparr>root = MerkleNode 0 [] None None True None,
              leaves = [MerkleNode 0 [] None None True None], leafMap = Map.empty\<rparr> (- 1)
      = Inl IndexOutOfRange \<and>
   getProof \<lparr>root = MerkleNode 0 [] None None True None,
              leaves = [MerkleNode 0 [] None None True None], leafMap = Map.empty\<rparr>
      (int (length (leaves \<lparr>root = MerkleNode 0 [] None None True None,
              leaves = [MerkleNode 0 [] None None True None], leafMap = Map.empty\<rparr>)))
      = Inl IndexOutOfRange"
  by (rule error_conditions)

text \<open>
  Claim C3, as amended. On a platform that provides the digest, \<open>verifyProof\<close> computes
  \<open>hash(data)\<close>, folds over the steps in order, setting the running hash to
  \<open>hash(step.siblingHash + computedHash)\<close> for a \<open>left\<close> step and to
  \<open>hash(computedHash + step.siblingHash)\<close> for a \<open>right\<close> one, and returns the boolean
  equality of the result with the root hash: it never throws on a proof that does not
  match. The hashes are lowercase hex strings, \<open>+\<close> joins the strings, and \<open>hash\<close>
  applies SHA-256 to the UTF-8 bytes of the joined string, not to the raw bytes of the
  digests.
\<close>

theorem verifyProof_folds:
  "subtle_digest P = Some dg \<Longrightarrow>
   verifyProof P d proof rootHash =
     Inr (foldl (\<lambda>computed step.
                   if direction step = Left
                   then hex (dg (encode P (siblingHash step @ computed)))
                   else hex (dg (encode P (computed @ siblingHash step))))
            (hex (dg (encode P d))) proof
          = rootHash)"
proof -
  assume dg: "subtle_digest P = Some dg"
  have "step_hash (digest_hex P dg) =
        (\<lambda>computed step.
                   if direction step = Left
                   then hex (dg (encode P (siblingHash step @ computed)))
                   else hex (dg (encode P (computed @ siblingHash step))))"
    by (intro ext) (simp add: step_hash_def digest_hex_def)
  then show ?thesis using verifyProof_fold[OF dg, of d "proof" rootHash]
    by (simp add: digest_hex_def)
qed

theorem verifyProof_folds_witness:
  "verifyProof browser (js ''a'') [\<lparr>siblingHash = js ''00'', direction = Left\<rparr>] (js ''ff'') =
     Inr (foldl (\<lambda>computed step.
                   if direction step = Left
                   then hex (sha256 (encode browser (siblingHash step @ computed)))
                   else hex (sha256 (encode browser (computed @ siblingHash step))))
            (hex (sha256 (encode browser (js ''a''))))
            [\<lparr>siblingHash = js ''00'', direction = Left\<rparr>]
          = js ''ff'')"
proof -
  have "subtle_digest browser = Some sha256" by (simp add: browser_def)
  then show ?thesis by (rule verifyProof_folds)
qed

lemma buildTree_single: "buildTree Q [n] k = Some (Inr (n, k))"
  by (subst buildTree.simps) simp

text \<open>
  Claim C7. For a single item the tree's root is the only leaf object, its hash is the
  hash of the item, \<open>getProof(0)\<close> is empty and verifies; \<open>buildTree\<close> on one node
  returns that node without hashing or allocating, whatever the platform.
\<close>

theorem single_item:
  "subtle_digest P = Some dg \<Longrightarrow>
   (\<exists>t. build P [x] = Some (Inr t) \<and>
        leaves t = [MerkleNode 0 (hex (dg (encode P x))) None None True (Some x)] \<and>
        root t = hd (leaves t) \<and>
        getRootHash t = hex (dg (encode P x)) \<and>
        getProof t 0 = Inr [] \<and>
        verifyProof P x [] (getRootHash t) = Inr True) \<and>
   buildTree Q [n] k = Some (Inr (n, k))"
proof -
  assume dg: "subtle_digest P = Some dg"
  let ?leaf = "MerkleNode 0 (hex (dg (encode P x))) None None True (Some x)"
  let ?t = "\<lparr>root = ?leaf, leaves = [?leaf], leafMap = foldl addLeaf Map.empty [?leaf]\<rparr>"
  have b: "build P [x] = Some (Inr ?t)"
    by (simp add: build_def hash_digest[OF dg] buildTree_single new_MerkleNode_def digest_hex_def)
  have g: "getProof ?t 0 = Inr []"
    by (simp add: getProof_def generateProof_def)
  have v: "verifyProof P x [] (getRootHash ?t) = Inr True"
    by (simp add: verifyProof_fold[OF dg] getRootHash_def digest_hex_def)
  have "getRootHash ?t = hex (dg (encode P x))" by (simp add: getRootHash_def)
  with b g v show ?thesis by (simp add: buildTree_single)
qed

theorem single_item_witness:
  "(\<exists>t. build browser [js ''x''] = Some (Inr t) \<and>
        leaves t = [MerkleNode 0 (hex (sha256 (encode browser (js ''x'')))) None None True
                      (Some (js ''x''))] \<and>
        root t = hd (leaves t) \<and>
        getRootHash t = hex (sha256 (encode browser (js ''x''))) \<and>
        getProof t 0 = Inr [] \<and>
        verifyProof browser (js ''x'') [] (getRootHash t) = Inr True) \<and>
   buildTree \<lparr>encode = utf8, subtle_digest = None\<rparr> [MerkleNode 5 [] None None True None] 6 =
     Some (Inr (MerkleNode 5 [] None None True None, 6))"
proof -
  have "subtle_digest browser = Some sha256" by (simp add: browser_def)
  then show ?thesis by (rule single_item)
qed

lemma find_append_calls:
  "find P (xs @ ys) = (case find P xs of Some m \<Rightarrow> Some m | None \<Rightarrow> find P ys)"
  by (induction xs) auto

lemma traverse_first_end:
  "(case find (ends_traversal tg) (calls n) of
      None \<Rightarrow> traverse tg n p = Inr (False, p)
    | Some m \<Rightarrow>
        if malformed m then traverse tg n p = Inl MalformedTree
        else (\<exists>q. traverse tg n p = Inr (True, q)))"
proof (induction n arbitrary: p)
  case (MerkleNode ref h l r lf d)
  let ?n = "MerkleNode ref h l r lf d"
  show ?case
  proof (cases lf)
    case True
    then show ?thesis by (simp add: ends_traversal_def malformed_def)
  next
    case False
    show ?thesis
    proof (cases "\<exists>a b. l = Some a \<and> r = Some b")
      case nolr: False
      then have "malformed ?n" using False by (auto simp: malformed_def)
      moreover have "traverse tg ?n p = Inl MalformedTree"
        using False nolr by (auto split: option.splits)
      ultimately show ?thesis by (simp add: ends_traversal_def)
    next
      case True
      then obtain a b where lr: "l = Some a" "r = Some b" by blast
      have nend: "\<not> ends_traversal tg ?n" using False lr by (simp add: ends_traversal_def malformed_def)
      have c: "find (ends_traversal tg) (calls ?n) =
                 (case find (ends_traversal tg) (calls a) of
                    Some m \<Rightarrow> Some m | None \<Rightarrow> find (ends_traversal tg) (calls b))"
        using False lr nend by (simp add: find_append_calls)
      note IHa = MerkleNode.IH(1)[of a p, simplified lr, simplified]
      show ?thesis
      proof (cases "find (ends_traversal tg) (calls a)")
        case (Some m)
        show ?thesis
        proof (cases "malformed m")
          case True
          then have "traverse tg a p = Inl MalformedTree" using IHa Some by simp
          then show ?thesis using False lr c Some True by simp
        next
          case nm: False
          then obtain q where "traverse tg a p = Inr (True, q)" using IHa Some by auto
          then show ?thesis using False lr c Some nm by simp
        qed
      next
        case None
        then have ta: "traverse tg a p = Inr (False, p)" using IHa by simp
        note IHb = MerkleNode.IH(2)[of b p, simplified lr, simplified]
        show ?thesis
        proof (cases "find (ends_traversal tg) (calls b)")
          case nb: None
          then have "traverse tg b p = Inr (False, p)" using IHb by simp
          then show ?thesis using False lr c None nb ta by simp
        next
          case (Some m)
          show ?thesis
          proof (cases "malformed m")
            case True
            then have "traverse tg b p = Inl MalformedTree" using IHb Some by simp
            then show ?thesis using False lr c None Some True ta by simp
          next
            case nm: False
            then obtain q where "traverse tg b p = Inr (True, q)" using IHb Some by auto
            then show ?thesis using False lr c None Some nm ta by simp
          qed
        qed
      qed
    qed
  qed
qed

lemma upto_first_malformed:
  "(\<exists>m\<in>set (upto_first (ends_traversal tg) xs). malformed m) \<longleftrightarrow>
   (\<exists>m. find (ends_traversal tg) xs = Some m \<and> malformed m)"
  by (induction xs) (auto simp: ends_traversal_def)

lemma traverse_malformed_iff:
  "traverse tg n p = Inl MalformedTree \<longleftrightarrow> (\<exists>m\<in>set (encountered tg n). malformed m)"
  using traverse_first_end[of tg n p]
  by (auto simp: encountered_def upto_first_malformed split: option.splits if_splits)

lemma generateProof_malformed_iff:
  "generateProof n tg = Inl MalformedTree \<longleftrightarrow> (\<exists>m\<in>set (encountered tg n). malformed m)"
proof -
  have "generateProof n tg = Inl MalformedTree \<longleftrightarrow> traverse tg n [] = Inl MalformedTree"
    by (auto simp: generateProof_def split: sum.splits)
  then show ?thesis by (simp add: traverse_malformed_iff)
qed

text \<open>
  Claim C8. \<open>getProof(index)\<close> throws \<open>Malformed tree\<close> exactly when the traversal
  from the root encounters a node that is not a leaf and misses a child, before it
  reaches the target leaf; the same holds of \<open>traverse\<close> from any node, and in
  particular of a call on such a node itself. In a tree that \<open>build\<close> returns every node
  that is not a leaf has both children, and \<open>getProof\<close> never throws \<open>Malformed tree\<close>,
  whatever the index.
\<close>

theorem malformed_unreachable:
  "(\<not> isLeaf n \<and> (left n = None \<or> right n = None) \<longrightarrow>
      traverse tg n p = Inl MalformedTree \<and> generateProof n tg = Inl MalformedTree) \<and>
   (traverse tg n p = Inl MalformedTree \<longleftrightarrow> (\<exists>m\<in>set (encountered tg n). malformed m)) \<and>
   (0 \<le> index \<and> index < int (length (leaves tr)) \<longrightarrow>
      (getProof tr index = Inl MalformedTree \<longleftrightarrow>
       (\<exists>m\<in>set (encountered (leaves tr ! nat index) (root tr)). malformed m))) \<and>
   (subtle_digest P = Some dg \<and> items \<noteq> [] \<longrightarrow>
      (\<exists>t. build P items = Some (Inr t) \<and>
         (\<forall>m\<in>set (nodes_of (root t)).
            \<not> isLeaf m \<longrightarrow> (\<exists>l r. left m = Some l \<and> right m = Some r)) \<and>
         (\<forall>index. getProof t index \<noteq> Inl MalformedTree)))"
proof (intro conjI impI)
  assume a: "\<not> isLeaf n \<and> (left n = None \<or> right n = None)"
  then show t: "traverse tg n p = Inl MalformedTree" for p
    by (cases n) (auto split: option.splits)
  show "generateProof n tg = Inl MalformedTree"
    using a by (cases n) (auto simp: generateProof_def split: option.splits)
next
  show "traverse tg n p = Inl MalformedTree \<longleftrightarrow> (\<exists>m\<in>set (encountered tg n). malformed m)"
    by (rule traverse_malformed_iff)
next
  assume "0 \<le> index \<and> index < int (length (leaves tr))"
  then show "getProof tr index = Inl MalformedTree \<longleftrightarrow>
       (\<exists>m\<in>set (encountered (leaves tr ! nat index) (root tr)). malformed m)"
    by (simp add: getProof_def generateProof_malformed_iff)
next
  assume "subtle_digest P = Some dg \<and> items \<noteq> []"
  then have dg: "subtle_digest P = Some dg" and ne: "items \<noteq> []" by simp_all
  let ?H = "digest_hex P dg"
  let ?lvs = "leaf_nodes (map ?H items) items"
  from build_ok[OF dg ne] obtain rt lvl k where
    b: "build P items =
          Some (Inr \<lparr>root = rt, leaves = ?lvs, leafMap = foldl addLeaf Map.empty ?lvs\<rparr>)"
    and inv: "level_inv ?H ?lvs lvl [rt] k" by blast
  let ?t = "\<lparr>root = rt, leaves = ?lvs, leafMap = foldl addLeaf Map.empty ?lvs\<rparr>"
  note ok = root_inv(1)[OF inv]
  have two: "\<forall>m\<in>set (nodes_of (root ?t)). \<not> isLeaf m \<longrightarrow> (\<exists>l r. left m = Some l \<and> right m = Some r)"
    using ok by (auto simp: node_ok_def)
  have "getProof ?t index \<noteq> Inl MalformedTree" for index
    using ok by (simp add: getProof_def generateProof_path[where H = ?H and lvs = ?lvs])
  with b two show "\<exists>t. build P items = Some (Inr t) \<and>
         (\<forall>m\<in>set (nodes_of (root t)).
            \<not> isLeaf m \<longrightarrow> (\<exists>l r. left m = Some l \<and> right m = Some r)) \<and>
         (\<forall>index. getProof t index \<noteq> Inl MalformedTree)" by blast
qed

theorem malformed_unreachable_witness:
  "traverse (MerkleNode 0 [] None None True None)
     (MerkleNode 1 [] (Some (MerkleNode 0 [] None None True None)) None False None) []
     = Inl MalformedTree \<and>
   getProof
     \<lparr>root = MerkleNode 3 [] (Some (MerkleNode 0 [] None None True None))
               (Some (MerkleNode 2 [] (Some (MerkleNode 1 [] None None True None)) None False None))
               False None,
      leaves = [MerkleNode 0 [] None None True None, MerkleNode 1 [] None None True None],
      leafMap = Map.empty\<rparr> 1
     = Inl MalformedTree \<and>
   (\<exists>t. build browser [js ''a'', js ''b''] = Some (Inr t) \<and>
        (\<forall>index. getProof t index \<noteq> Inl MalformedTree))"
  using malformed_unreachable[of
      "MerkleNode 1 [] (Some (MerkleNode 0 [] None None True None)) None False None"
      "MerkleNode 0 [] None None True None" "[]" 1
      "\<lparr>root = MerkleNode 3 [] (Some (MerkleNode 0 [] None None True None))
               (Some (MerkleNode 2 [] (Some (MerkleNode 1 [] None None True None)) None False None))
               False None,
        leaves = [MerkleNode 0 [] None None True None, MerkleNode 1 [] None None True None],
        leafMap = Map.empty\<rparr>"
      browser sha256 "[js ''a'', js ''b'']"]
  by (auto simp: browser_def encountered_def ends_traversal_def malformed_def)

section \<open>Height of the tree and length of the proofs\<close>

lemma ceiling_log2_level:
  assumes "0 < n" "n \<le> 2 ^ lvl" "0 < lvl \<Longrightarrow> 2 ^ (lvl - 1) < n"
  shows "\<lceil>log 2 (real n)\<rceil> = int lvl"
proof (cases lvl)
  case 0
  with assms have "n = 1" by simp
  then show ?thesis using 0 by simp
next
  case (Suc j)
  with assms have "2 ^ j < n" "n \<le> 2 ^ (j + 1)" by simp_all
  then have "\<lceil>log (real 2) (real n)\<rceil> = int j + 1"
    by (intro ceiling_log_nat_eq_if) simp_all
  then show ?thesis using Suc by simp
qed

lemma build_levels:
  assumes dg: "subtle_digest P = Some dg" and ne: "items \<noteq> []"
  shows "\<exists>t. build P items = Some (Inr t) \<and>
           int (height (root t)) = \<lceil>log 2 (real (length items))\<rceil> \<and>
           (\<forall>i<length items. \<exists>proof. getProof t (int i) = Inr proof \<and>
              int (length proof) = \<lceil>log 2 (real (length items))\<rceil>)"
proof -
  let ?H = "digest_hex P dg"
  let ?lvs = "leaf_nodes (map ?H items) items"
  from build_ok[OF dg ne] obtain rt lvl k where
    b: "build P items =
          Some (Inr \<lparr>root = rt, leaves = ?lvs, leafMap = foldl addLeaf Map.empty ?lvs\<rparr>)"
    and inv: "level_inv ?H ?lvs lvl [rt] k" by blast
  let ?t = "\<lparr>root = rt, leaves = ?lvs, leafMap = foldl addLeaf Map.empty ?lvs\<rparr>"
  note ok = root_inv(1)[OF inv]
  have "0 < length items" using ne by simp
  moreover have "length items \<le> 2 ^ lvl" using root_inv(4)[OF inv] by simp
  moreover have "0 < lvl \<Longrightarrow> 2 ^ (lvl - 1) < length items" using root_inv(5)[OF inv] by simp
  ultimately have lg: "\<lceil>log 2 (real (length items))\<rceil> = int lvl" by (rule ceiling_log2_level)
  have h: "int (height (root ?t)) = \<lceil>log 2 (real (length items))\<rceil>"
    using root_inv(3)[OF inv] lg by simp
  have pr: "\<exists>proof. getProof ?t (int i) = Inr proof \<and>
              int (length proof) = \<lceil>log 2 (real (length items))\<rceil>" if i: "i < length items" for i
  proof -
    have c: "contains i rt" and l: "length (path_to i rt) = lvl"
      using root_inv(2)[OF inv] i by simp_all
    have "getProof ?t (int i) = Inr (path_to i rt)"
      using i c ok by (simp add: getProof_def generateProof_path[where H = ?H and lvs = ?lvs])
    then show ?thesis using l lg by simp
  qed
  from b h pr show ?thesis by blast
qed

text \<open>
  Claim C9. For more than one item, on a platform that provides the digest, the tree
  that \<open>build\<close> returns has height \<open>\<lceil>log\<^sub>2 n\<rceil>\<close>, \<open>n\<close> being the number of items: the
  number of levels \<open>buildTree\<close> adds above the leaves.
\<close>

theorem tree_height:
  "subtle_digest P = Some dg \<Longrightarrow> 1 < length items \<Longrightarrow>
   \<exists>t. build P items = Some (Inr t) \<and>
       int (height (root t)) = \<lceil>log 2 (real (length items))\<rceil>"
proof -
  assume dg: "subtle_digest P = Some dg" and "1 < length items"
  then have "items \<noteq> []" by auto
  from build_levels[OF dg this] show ?thesis by blast
qed

theorem tree_height_witness:
  "\<exists>t. build browser [js ''a'', js ''b'', js ''c'', js ''d'', js ''e''] = Some (Inr t) \<and>
       height (root t) = 3"
proof -
  have "subtle_digest browser = Some sha256" by (simp add: browser_def)
  moreover have "1 < length [js ''a'', js ''b'', js ''c'', js ''d'', js ''e'']" by simp
  ultimately obtain t where
    "build browser [js ''a'', js ''b'', js ''c'', js ''d'', js ''e''] = Some (Inr t)"
    "int (height (root t)) = \<lceil>log 2 (real (length [js ''a'', js ''b'', js ''c'', js ''d'', js ''e'']))\<rceil>"
    using tree_height by blast
  moreover have "\<lceil>log 2 (real (5::nat))\<rceil> = 3"
    using ceiling_log_nat_eq_if[of 2 2 5] by simp
  ultimately show ?thesis by auto
qed

text \<open>
  Claim C10. All proofs of one tree have the same length: for \<open>n\<close> items and every valid
  index, \<open>getProof\<close> returns a proof of length 0 when \<open>n = 1\<close> and \<open>\<lceil>log\<^sub>2 n\<rceil>\<close> when
  \<open>n > 1\<close>.
\<close>

theorem proof_length:
  "subtle_digest P = Some dg \<Longrightarrow> i < length items \<Longrightarrow>
   \<exists>t proof. build P items = Some (Inr t) \<and> getProof t (int i) = Inr proof \<and>
     int (length proof) = (if length items = 1 then 0 else \<lceil>log 2 (real (length items))\<rceil>)"
proof -
  assume dg: "subtle_digest P = Some dg" and i: "i < length items"
  then have "items \<noteq> []" by auto
  from build_levels[OF dg this] i show ?thesis by fastforce
qed

theorem proof_length_witness:
  "\<exists>t proof. build browser [js ''a'', js ''b'', js ''c'', js ''d'', js ''e''] = Some (Inr t) \<and>
     getProof t 4 = Inr proof \<and> length proof = 3"
proof -
  have "subtle_digest browser = Some sha256" by (simp add: browser_def)
  moreover have "4 < length [js ''a'', js ''b'', js ''c'', js ''d'', js ''e'']" by simp
  ultimately obtain t "proof" where
    "build browser [js ''a'', js ''b'', js ''c'', js ''d'', js ''e''] = Some (Inr t)"
    "getProof t (int 4) = Inr proof"
    "int (length proof) =
       (if length [js ''a'', js ''b'', js ''c'', js ''d'', js ''e''] = 1 then 0
        else \<lceil>log 2 (real (length [js ''a'', js ''b'', js ''c'', js ''d'', js ''e'']))\<rceil>)"
    using proof_length by blast
  moreover have "\<lceil>log 2 (real (5::nat))\<rceil> = 3"
    using ceiling_log_nat_eq_if[of 2 2 5] by simp
  ultimately show ?thesis by auto
qed

section \<open>The steps of a proof\<close>

lemma last_chain_to [simp]: "last (chain_to t n) = n"
  by (cases n) (auto split: option.splits)

lemma chain_to_nonempty [simp]: "chain_to t n \<noteq> []"
  by (cases n) (auto split: option.splits)

lemma hd_chain_to:
  "contains t n \<Longrightarrow>
   isLeaf (hd (chain_to t n)) \<and> oid (hd (chain_to t n)) = t \<and> hd (chain_to t n) \<in> set (nodes_of n)"
proof (induction n)
  case (MerkleNode ref h l r lf d)
  show ?case
  proof (cases lf)
    case True
    then show ?thesis using MerkleNode.prems by simp
  next
    case False
    with MerkleNode.prems obtain a b where lr: "l = Some a" "r = Some b"
      by (auto split: option.splits)
    show ?thesis
    proof (cases "contains t a")
      case True
      from MerkleNode.IH(1)[of a] lr True
      have "isLeaf (hd (chain_to t a)) \<and> oid (hd (chain_to t a)) = t \<and>
            hd (chain_to t a) \<in> set (nodes_of a)" by simp
      then show ?thesis using False lr True by simp
    next
      case nota: False
      then have "contains t b" using MerkleNode.prems False lr by simp
      with MerkleNode.IH(2)[of b] lr
      have "isLeaf (hd (chain_to t b)) \<and> oid (hd (chain_to t b)) = t \<and>
            hd (chain_to t b) \<in> set (nodes_of b)" by simp
      then show ?thesis using False lr nota by simp
    qed
  qed
qed

lemma steps_along_snoc:
  "steps_along c ps \<Longrightarrow> left b = Some l \<Longrightarrow> right b = Some r \<Longrightarrow>
   (l = last c \<and> s = \<lparr>siblingHash = node_hash r, direction = Right\<rparr>) \<or>
   (r = last c \<and> s = \<lparr>siblingHash = node_hash l, direction = Left\<rparr>) \<Longrightarrow>
   steps_along (c @ [b]) (ps @ [s])"
proof (induction c ps rule: steps_along.induct)
  case (1 a)
  then show ?case by auto
next
  case (2 a b' rest s' ss)
  then show ?case by (auto split: option.splits)
qed simp_all

lemma steps_chain_path: "contains t n \<Longrightarrow> steps_along (chain_to t n) (path_to t n)"
proof (induction n)
  case (MerkleNode ref h l r lf d)
  show ?case
  proof (cases lf)
    case True
    then show ?thesis by simp
  next
    case False
    with MerkleNode.prems obtain a b where lr: "l = Some a" "r = Some b"
      by (auto split: option.splits)
    let ?n = "MerkleNode ref h l r lf d"
    have ln: "left ?n = Some a" "right ?n = Some b" using lr by simp_all
    show ?thesis
    proof (cases "contains t a")
      case True
      from MerkleNode.IH(1)[of a] lr True have "steps_along (chain_to t a) (path_to t a)" by simp
      then have "steps_along (chain_to t a @ [?n])
                   (path_to t a @ [\<lparr>siblingHash = node_hash b, direction = Right\<rparr>])"
        using ln by (rule steps_along_snoc) simp
      then show ?thesis using False lr True by simp
    next
      case nota: False
      then have "contains t b" using MerkleNode.prems False lr by simp
      with MerkleNode.IH(2)[of b] lr have "steps_along (chain_to t b) (path_to t b)" by simp
      then have "steps_along (chain_to t b @ [?n])
                   (path_to t b @ [\<lparr>siblingHash = node_hash a, direction = Left\<rparr>])"
        using ln by (rule steps_along_snoc) simp
      then show ?thesis using False lr nota by simp
    qed
  qed
qed

text \<open>
  Claim C6. For every tree that \<open>build\<close> returns and every valid index \<open>i\<close>,
  \<open>getProof(i)\<close> is ordered from the leaf upwards along the chain of nodes that starts
  at the leaf object \<open>leaves[i]\<close> and ends at the root: its \<open>k\<close>-th step records the other
  child of the \<open>k\<close>-th parent on the chain, by that child's hash and by its side, \<open>right\<close>
  if it is the right child and \<open>left\<close> if it is the left one. So the first step records
  the leaf's direct sibling and the last one the root's child off the path.
\<close>

theorem proof_records_siblings:
  "subtle_digest P = Some dg \<Longrightarrow> i < length items \<Longrightarrow>
   \<exists>t proof chain. build P items = Some (Inr t) \<and> getProof t (int i) = Inr proof \<and>
     hd chain = leaves t ! i \<and> last chain = root t \<and> steps_along chain proof"
proof -
  assume dg: "subtle_digest P = Some dg" and i: "i < length items"
  then have ne: "items \<noteq> []" by auto
  let ?H = "digest_hex P dg"
  let ?lvs = "leaf_nodes (map ?H items) items"
  from build_ok[OF dg ne] obtain rt lvl k where
    b: "build P items =
          Some (Inr \<lparr>root = rt, leaves = ?lvs, leafMap = foldl addLeaf Map.empty ?lvs\<rparr>)"
    and inv: "level_inv ?H ?lvs lvl [rt] k" by blast
  let ?t = "\<lparr>root = rt, leaves = ?lvs, leafMap = foldl addLeaf Map.empty ?lvs\<rparr>"
  note ok = root_inv(1)[OF inv]
  have c: "contains i rt" using root_inv(2)[OF inv] i by simp
  have gp: "getProof ?t (int i) = Inr (path_to i rt)"
    using i c ok by (simp add: getProof_def generateProof_path[where H = ?H and lvs = ?lvs])
  from hd_chain_to[OF c] have hl: "isLeaf (hd (chain_to i rt))" "oid (hd (chain_to i rt)) = i"
    "hd (chain_to i rt) \<in> set (nodes_of rt)" by simp_all
  then have "node_ok ?H ?lvs (hd (chain_to i rt))" using ok by blast
  then have hd: "hd (chain_to i rt) = leaves ?t ! i" using hl i by (simp add: node_ok_def)
  have "last (chain_to i rt) = root ?t" by simp
  with b gp hd steps_chain_path[OF c] show ?thesis by blast
qed

theorem proof_records_siblings_witness:
  "\<exists>t proof chain. build browser [js ''a'', js ''b'', js ''c''] = Some (Inr t) \<and>
     getProof t (int 1) = Inr proof \<and>
     hd chain = leaves t ! 1 \<and> last chain = root t \<and> steps_along chain proof"
proof -
  have "subtle_digest browser = Some sha256" by (simp add: browser_def)
  moreover have "1 < length [js ''a'', js ''b'', js ''c'']" by simp
  ultimately show ?thesis by (rule proof_records_siblings)
qed

subsection \<open>Node objects are pairwise distinct\<close>

lemma oids_Cons: "oids (n # ns) = map oid (nodes_of n) @ oids ns"
  by (simp add: oids_def)

lemma oids_Nil [simp]: "oids [] = []"
  by (simp add: oids_def)

lemma nodes_of_new [simp]:
  "nodes_of (new_MerkleNode j h (Some l) (Some r) d) =
     new_MerkleNode j h (Some l) (Some r) d # nodes_of l @ nodes_of r"
  "nodes_of (new_MerkleNode j h None None d) = [new_MerkleNode j h None None d]"
  by (simp_all add: new_MerkleNode_def)

lemma oid_new [simp]: "oid (new_MerkleNode j h l r d) = j"
  by (simp add: new_MerkleNode_def)

lemma pairUp_oids:
  "\<forall>j\<in>set (oids ns). j < k \<Longrightarrow> distinct (oids ns) \<Longrightarrow>
   distinct (oids (fst (pairUp H ns k))) \<and>
   set (oids (fst (pairUp H ns k))) \<subseteq> set (oids ns) \<union> {k..<snd (pairUp H ns k)}"
proof (induction H ns k rule: pairUp.induct)
  case (1 H k)
  then show ?case by simp
next
  case (2 H l k)
  then show ?case by (auto simp: oids_Cons)
next
  case (3 H l r rest k)
  have le: "k + 1 \<le> snd (pairUp H rest (k + 1))" by (rule pairUp_fresh_le)
  have "\<forall>j\<in>set (oids rest). j < k + 1" using "3.prems"(1)
    by (auto simp: oids_Cons intro: less_SucI)
  moreover have "distinct (oids rest)" using "3.prems"(2) by (simp add: oids_Cons)
  ultimately have IH: "distinct (oids (fst (pairUp H rest (k + 1))))"
    "set (oids (fst (pairUp H rest (k + 1)))) \<subseteq> set (oids rest) \<union> {k + 1..<snd (pairUp H rest (k + 1))}"
    using "3.IH" by blast+
  let ?A = "map oid (nodes_of l)" and ?B = "map oid (nodes_of r)"
  let ?C = "oids (fst (pairUp H rest (k + 1)))"
  have ltA: "\<forall>j\<in>set ?A. j < k" and ltB: "\<forall>j\<in>set ?B. j < k" and ltR: "\<forall>j\<in>set (oids rest). j < k"
    using "3.prems"(1) by (auto simp: oids_Cons)
  have dA: "distinct ?A" and dB: "distinct ?B" and AB: "set ?A \<inter> set ?B = {}"
    and AR: "set ?A \<inter> set (oids rest) = {}" and BR: "set ?B \<inter> set (oids rest) = {}"
    using "3.prems"(2) by (auto simp: oids_Cons)
  have kC: "k \<notin> set ?C" using IH(2) ltR by fastforce
  have AC: "set ?A \<inter> set ?C = {}"
  proof -
    have "j \<notin> set ?C" if "j \<in> set ?A" for j
    proof
      assume "j \<in> set ?C"
      then have "j \<in> set (oids rest) \<or> k + 1 \<le> j" using IH(2) by auto
      moreover have "j < k" using that ltA by blast
      moreover have "j \<notin> set (oids rest)" using that AR by blast
      ultimately show False by simp
    qed
    then show ?thesis by blast
  qed
  have BC: "set ?B \<inter> set ?C = {}"
  proof -
    have "j \<notin> set ?C" if "j \<in> set ?B" for j
    proof
      assume "j \<in> set ?C"
      then have "j \<in> set (oids rest) \<or> k + 1 \<le> j" using IH(2) by auto
      moreover have "j < k" using that ltB by blast
      moreover have "j \<notin> set (oids rest)" using that BR by blast
      ultimately show False by simp
    qed
    then show ?thesis by blast
  qed
  have kA: "k \<notin> set ?A" and kB: "k \<notin> set ?B" using ltA ltB by blast+
  have e: "oids (fst (pairUp H (l # r # rest) k)) = k # ?A @ ?B @ ?C"
    by (simp add: oids_Cons)
  have 1: "distinct (oids (fst (pairUp H (l # r # rest) k)))"
    unfolding e using kA kB kC dA dB IH(1) AB AC BC by (simp add: Int_Un_distrib)
  have 2: "set (oids (fst (pairUp H (l # r # rest) k))) \<subseteq>
        set (oids (l # r # rest)) \<union> {k..<snd (pairUp H (l # r # rest) k)}"
    using IH(2) le by (auto simp: oids_Cons)
  from 1 2 show ?case by blast
qed

lemma build_distinct:
  assumes dg: "subtle_digest P = Some dg" and ne: "items \<noteq> []"
  shows "\<exists>t. build P items = Some (Inr t) \<and> distinct (map oid (nodes_of (root t)))"
proof -
  let ?H = "digest_hex P dg"
  let ?lvs = "leaf_nodes (map ?H items) items"
  let ?Q = "\<lambda>(lvl::nat) ns k. (\<forall>j\<in>set (oids ns). j < k) \<and> distinct (oids ns)"
  have step: "?Q (Suc lvl) (fst (pairUp ?H ns k)) (snd (pairUp ?H ns k))"
    if "?Q lvl ns k" "2 \<le> length ns" for lvl ns k
  proof -
    from that(1) pairUp_oids[of ns k ?H]
    have d: "distinct (oids (fst (pairUp ?H ns k)))"
      and s: "set (oids (fst (pairUp ?H ns k))) \<subseteq> set (oids ns) \<union> {k..<snd (pairUp ?H ns k)}"
      by blast+
    have "k \<le> snd (pairUp ?H ns k)" by (rule pairUp_fresh_le)
    then have "\<forall>j\<in>set (oids (fst (pairUp ?H ns k))). j < snd (pairUp ?H ns k)"
      using s that(1) by fastforce
    with d show ?thesis by blast
  qed
  have o: "oids ?lvs = [0..<length items]"
    by (simp add: oids_def leaf_nodes_def map_concat comp_def map_upt_eqI concat_map_singleton)
  have init: "?Q 0 ?lvs (length items)" by (simp add: o)
  have "?lvs \<noteq> []" using ne by (simp flip: length_greater_0_conv)
  then obtain rt k lvl where
    bt: "buildTree P ?lvs (length items) = Some (Inr (rt, k))" and q: "?Q lvl [rt] k"
    using buildTree_rule[where Q = ?Q and ns = ?lvs and lvl = 0 and k = "length items", OF dg step]
      init by blast
  have "build P items =
          Some (Inr \<lparr>root = rt, leaves = ?lvs, leafMap = foldl addLeaf Map.empty ?lvs\<rparr>)"
    using ne bt unfolding build_def by (simp add: hashAll_map[OF dg] leaf_nodes_def Let_def)
  moreover have "distinct (map oid (nodes_of rt))" using q by (simp add: oids_def)
  ultimately show ?thesis by simp
qed

section \<open>The odd level and the hash of a parent\<close>

lemma pairUp_odd:
  "odd (length ns) \<Longrightarrow>
   fst (pairUp H ns k) \<noteq> [] \<and>
   last (fst (pairUp H ns k)) =
     new_MerkleNode (k + length ns div 2 + 1)
       (H (node_hash (last ns) @ node_hash (last ns))) (Some (last ns))
       (Some (new_MerkleNode (k + length ns div 2) (node_hash (last ns)) None None None)) None \<and>
   snd (pairUp H ns k) = k + length ns div 2 + 2"
proof (induction H ns k rule: pairUp.induct)
  case (1 H k)
  then show ?case by simp
next
  case (2 H l k)
  then show ?case by simp
next
  case (3 H l r rest k)
  then have "odd (length rest)" by simp
  then have ne: "rest \<noteq> []" by auto
  from "3.IH"[OF \<open>odd (length rest)\<close>] ne show ?case by simp
qed

lemma build_of_buildTree:
  assumes dg: "subtle_digest P = Some dg" and ne: "items \<noteq> []"
    and bt: "buildTree P (leaf_nodes (map (digest_hex P dg) items) items) (length items) =
               Some (Inr (rt, k))"
  shows "build P items =
           Some (Inr \<lparr>root = rt,
                      leaves = leaf_nodes (map (digest_hex P dg) items) items,
                      leafMap = foldl addLeaf Map.empty
                                  (leaf_nodes (map (digest_hex P dg) items) items)\<rparr>)"
  using ne bt unfolding build_def by (simp add: hashAll_map[OF dg] leaf_nodes_def Let_def)

lemma build_three:
  assumes dg: "subtle_digest P = Some dg"
  shows "\<exists>t. build P [a, b, c] = Some (Inr t) \<and>
     getProof t 2 =
       Inr [\<lparr>siblingHash = digest_hex P dg c, direction = Right\<rparr>,
            \<lparr>siblingHash = digest_hex P dg (digest_hex P dg a @ digest_hex P dg b),
             direction = Left\<rparr>]"
proof -
  let ?H = "digest_hex P dg"
  let ?la = "new_MerkleNode 0 (?H a) None None (Some a)"
  let ?lb = "new_MerkleNode 1 (?H b) None None (Some b)"
  let ?lc = "new_MerkleNode 2 (?H c) None None (Some c)"
  let ?ab = "new_MerkleNode 3 (?H (?H a @ ?H b)) (Some ?la) (Some ?lb) None"
  let ?cc = "new_MerkleNode 5 (?H (?H c @ ?H c)) (Some ?lc)
               (Some (new_MerkleNode 4 (?H c) None None None)) None"
  let ?rt = "new_MerkleNode 6 (?H (node_hash ?ab @ node_hash ?cc)) (Some ?ab) (Some ?cc) None"
  have bt: "buildTree P [?la, ?lb, ?lc] 3 = Some (Inr (?rt, 7))"
    by (subst buildTree.simps, simp add: pairLoop_pairUp[OF dg] eval_nat_numeral,
        subst buildTree.simps, simp add: pairLoop_pairUp[OF dg] eval_nat_numeral,
        subst buildTree.simps, simp add: new_MerkleNode_def eval_nat_numeral)
  have lv: "leaf_nodes (map ?H [a, b, c]) [a, b, c] = [?la, ?lb, ?lc]"
    by (simp add: leaf_nodes_def upt_rec eval_nat_numeral)
  let ?t = "\<lparr>root = ?rt, leaves = [?la, ?lb, ?lc],
             leafMap = foldl addLeaf Map.empty [?la, ?lb, ?lc]\<rparr>"
  have "buildTree P (leaf_nodes (map ?H [a, b, c]) [a, b, c]) (length [a, b, c]) =
          Some (Inr (?rt, 7))"
    unfolding lv using bt by (simp add: eval_nat_numeral)
  from build_of_buildTree[OF dg _ this] have b: "build P [a, b, c] = Some (Inr ?t)"
    unfolding lv by simp
  have g: "getProof ?t 2 =
       Inr [\<lparr>siblingHash = ?H c, direction = Right\<rparr>,
            \<lparr>siblingHash = ?H (?H a @ ?H b), direction = Left\<rparr>]"
    by (simp add: getProof_def generateProof_def new_MerkleNode_def)
  from b g show ?thesis by blast
qed

lemma build_two:
  assumes dg: "subtle_digest P = Some dg"
  shows "\<exists>t. build P [a, b] = Some (Inr t) \<and>
     getRootHash t = digest_hex P dg (digest_hex P dg a @ digest_hex P dg b)"
proof -
  let ?H = "digest_hex P dg"
  let ?la = "new_MerkleNode 0 (?H a) None None (Some a)"
  let ?lb = "new_MerkleNode 1 (?H b) None None (Some b)"
  let ?rt = "new_MerkleNode 2 (?H (?H a @ ?H b)) (Some ?la) (Some ?lb) None"
  have bt: "buildTree P [?la, ?lb] 2 = Some (Inr (?rt, 3))"
    by (subst buildTree.simps, simp add: pairLoop_pairUp[OF dg] eval_nat_numeral,
        subst buildTree.simps, simp add: new_MerkleNode_def eval_nat_numeral)
  have lv: "leaf_nodes (map ?H [a, b]) [a, b] = [?la, ?lb]"
    by (simp add: leaf_nodes_def upt_rec eval_nat_numeral)
  let ?t = "\<lparr>root = ?rt, leaves = [?la, ?lb], leafMap = foldl addLeaf Map.empty [?la, ?lb]\<rparr>"
  have "buildTree P (leaf_nodes (map ?H [a, b]) [a, b]) (length [a, b]) = Some (Inr (?rt, 3))"
    unfolding lv using bt by (simp add: eval_nat_numeral)
  from build_of_buildTree[OF dg _ this] have b: "build P [a, b] = Some (Inr ?t)"
    unfolding lv by simp
  have "getRootHash ?t = ?H (?H a @ ?H b)"
    by (simp add: getRootHash_def new_MerkleNode_def)
  with b show ?thesis by blast
qed


text \<open>
  Claim C5. When a level has an odd number of nodes, the loop pairs the last node with a
  node made by \<open>new MerkleNode(left.hash)\<close>: same hash, no children, no data, and an
  identity that no earlier object has; all node objects of a tree that \<open>build\<close> returns
  are pairwise distinct objects. For \<open>build(["a","b","c"])\<close> the proof of leaf 2 starts
  with the step (hash of \<open>"c"\<close>, right).
\<close>

theorem odd_level_duplicate:
  "subtle_digest P = Some dg \<Longrightarrow>
   (odd (length nodes) \<longrightarrow>
      (\<exists>nextLevel fresh' s.
         pairLoop P nodes 0 [] fresh = Inr (nextLevel, fresh') \<and> nextLevel \<noteq> [] \<and>
         left (last nextLevel) = Some (last nodes) \<and> right (last nextLevel) = Some s \<and>
         node_hash s = node_hash (last nodes) \<and>
         left s = None \<and> right s = None \<and> data s = None \<and>
         fresh \<le> oid s \<and> oid s < fresh')) \<and>
   (items \<noteq> [] \<longrightarrow>
      (\<exists>t. build P items = Some (Inr t) \<and> distinct (map oid (nodes_of (root t))))) \<and>
   (\<exists>t. build P [a, b, c] = Some (Inr t) \<and>
        getProof t 2 =
          Inr [\<lparr>siblingHash = hex (dg (encode P c)), direction = Right\<rparr>,
               \<lparr>siblingHash = hex (dg (encode P (hex (dg (encode P a)) @ hex (dg (encode P b))))),
                direction = Left\<rparr>])"
proof (intro conjI impI)
  assume dg: "subtle_digest P = Some dg"
  {
    assume odd: "odd (length nodes)"
    let ?H = "digest_hex P dg"
    let ?s = "new_MerkleNode (fresh + length nodes div 2) (node_hash (last nodes)) None None None"
    from pairUp_odd[OF odd, of ?H fresh]
    have ne: "fst (pairUp ?H nodes fresh) \<noteq> []"
      and la: "last (fst (pairUp ?H nodes fresh)) =
         new_MerkleNode (fresh + length nodes div 2 + 1)
           (?H (node_hash (last nodes) @ node_hash (last nodes))) (Some (last nodes)) (Some ?s) None"
      and sn: "snd (pairUp ?H nodes fresh) = fresh + length nodes div 2 + 2"
      by simp_all
    have pl: "pairLoop P nodes 0 [] fresh =
                Inr (fst (pairUp ?H nodes fresh), snd (pairUp ?H nodes fresh))"
      using pairLoop_pairUp[OF dg, of nodes 0 "[]" fresh] by simp
    have "left (last (fst (pairUp ?H nodes fresh))) = Some (last nodes)"
      "right (last (fst (pairUp ?H nodes fresh))) = Some ?s"
      "node_hash ?s = node_hash (last nodes)" "left ?s = None" "right ?s = None" "data ?s = None"
      "fresh \<le> oid ?s" "oid ?s < snd (pairUp ?H nodes fresh)"
      unfolding la sn by (simp_all add: new_MerkleNode_def)
    with pl ne show "\<exists>nextLevel fresh' s.
         pairLoop P nodes 0 [] fresh = Inr (nextLevel, fresh') \<and> nextLevel \<noteq> [] \<and>
         left (last nextLevel) = Some (last nodes) \<and> right (last nextLevel) = Some s \<and>
         node_hash s = node_hash (last nodes) \<and>
         left s = None \<and> right s = None \<and> data s = None \<and>
         fresh \<le> oid s \<and> oid s < fresh'" by blast
  }
  {
    assume "items \<noteq> []"
    with dg show "\<exists>t. build P items = Some (Inr t) \<and> distinct (map oid (nodes_of (root t)))"
      by (rule build_distinct)
  }
  from build_three[OF dg, of a b c]
  show "\<exists>t. build P [a, b, c] = Some (Inr t) \<and>
        getProof t 2 =
          Inr [\<lparr>siblingHash = hex (dg (encode P c)), direction = Right\<rparr>,
               \<lparr>siblingHash = hex (dg (encode P (hex (dg (encode P a)) @ hex (dg (encode P b))))),
                direction = Left\<rparr>]"
    by (simp add: digest_hex_def)
qed

theorem odd_level_duplicate_witness:
  "(\<exists>nextLevel fresh' s.
      pairLoop browser [MerkleNode 0 (js ''c'') None None True (Some (js ''x''))] 0 [] 1 =
        Inr (nextLevel, fresh') \<and> nextLevel \<noteq> [] \<and>
      left (last nextLevel) = Some (MerkleNode 0 (js ''c'') None None True (Some (js ''x''))) \<and>
      right (last nextLevel) = Some s \<and> node_hash s = js ''c'' \<and>
      left s = None \<and> right s = None \<and> data s = None \<and> 1 \<le> oid s \<and> oid s < fresh') \<and>
   (\<exists>t. build browser [js ''a'', js ''b'', js ''c''] = Some (Inr t) \<and>
        distinct (map oid (nodes_of (root t)))) \<and>
   (\<exists>t. build browser [js ''a'', js ''b'', js ''c''] = Some (Inr t) \<and>
        getProof t 2 =
          Inr [\<lparr>siblingHash = hex (sha256 (encode browser (js ''c''))), direction = Right\<rparr>,
               \<lparr>siblingHash = hex (sha256 (encode browser
                   (hex (sha256 (encode browser (js ''a''))) @
                    hex (sha256 (encode browser (js ''b'')))))),
                direction = Left\<rparr>])"
proof -
  have "subtle_digest browser = Some sha256" by (simp add: browser_def)
  from odd_level_duplicate[OF this,
      of "[MerkleNode 0 (js ''c'') None None True (Some (js ''x''))]" 1
         "[js ''a'', js ''b'', js ''c'']" "js ''a''" "js ''b''" "js ''c''"]
  show ?thesis by simp
qed

text \<open>
  Claim C2, as amended. For every pair of sibling nodes formed during \<open>build\<close>, the
  parent's hash is \<open>hash(left.hash + right.hash)\<close>: the lowercase hex of the SHA-256 of
  the UTF-8 bytes of the two children's hex strings joined, left first, no separator
  (128 bytes for two digests), not of the 64 raw bytes of the two digests. For
  \<open>build(["a","b"])\<close> the root hash is the hash of the joined hex hashes of
  \<open>"a"\<close> and \<open>"b"\<close>.
\<close>

theorem parent_hash_joins_hex:
  "subtle_digest P = Some dg \<Longrightarrow>
   (items \<noteq> [] \<longrightarrow>
      (\<exists>t. build P items = Some (Inr t) \<and>
         (\<forall>m\<in>set (nodes_of (root t)). \<forall>l r. left m = Some l \<longrightarrow> right m = Some r \<longrightarrow>
            node_hash m = hex (dg (encode P (node_hash l @ node_hash r)))))) \<and>
   (\<exists>t. build P [a, b] = Some (Inr t) \<and>
        getRootHash t =
          hex (dg (encode P (hex (dg (encode P a)) @ hex (dg (encode P b))))))"
proof (intro conjI impI)
  assume dg: "subtle_digest P = Some dg"
  {
    assume ne: "items \<noteq> []"
    let ?H = "digest_hex P dg"
    let ?lvs = "leaf_nodes (map ?H items) items"
    from build_ok[OF dg ne] obtain rt lvl k where
      b: "build P items =
            Some (Inr \<lparr>root = rt, leaves = ?lvs, leafMap = foldl addLeaf Map.empty ?lvs\<rparr>)"
      and inv: "level_inv ?H ?lvs lvl [rt] k" by blast
    have "\<forall>m\<in>set (nodes_of rt). \<forall>l r. left m = Some l \<longrightarrow> right m = Some r \<longrightarrow>
            node_hash m = hex (dg (encode P (node_hash l @ node_hash r)))"
      using root_inv(1)[OF inv] by (auto simp: node_ok_def digest_hex_def)
    with b show "\<exists>t. build P items = Some (Inr t) \<and>
         (\<forall>m\<in>set (nodes_of (root t)). \<forall>l r. left m = Some l \<longrightarrow> right m = Some r \<longrightarrow>
            node_hash m = hex (dg (encode P (node_hash l @ node_hash r))))" by simp
  }
  from build_two[OF dg, of a b]
  show "\<exists>t. build P [a, b] = Some (Inr t) \<and>
        getRootHash t =
          hex (dg (encode P (hex (dg (encode P a)) @ hex (dg (encode P b)))))"
    by (simp add: digest_hex_def)
qed

theorem parent_hash_joins_hex_witness:
  "(\<exists>t. build browser [js ''a'', js ''b'', js ''c''] = Some (Inr t) \<and>
      (\<forall>m\<in>set (nodes_of (root t)). \<forall>l r. left m = Some l \<longrightarrow> right m = Some r \<longrightarrow>
         node_hash m = hex (sha256 (encode browser (node_hash l @ node_hash r))))) \<and>
   (\<exists>t. build browser [js ''a'', js ''b''] = Some (Inr t) \<and>
        getRootHash t =
          hex (sha256 (encode browser
            (hex (sha256 (encode browser (js ''a''))) @ hex (sha256 (encode browser (js ''b'')))))))"
proof -
  have "subtle_digest browser = Some sha256" by (simp add: browser_def)
  from parent_hash_joins_hex[OF this, of "[js ''a'', js ''b'', js ''c'']" "js ''a''" "js ''b''"]
  show ?thesis by simp
qed

subsection \<open>The digests of the two-item example, computed\<close>

lemma sha256_a: "sha256 (utf8 (js ''a'')) =
     [202, 151, 129, 18, 202, 27, 189, 202, 250, 194, 49, 179, 154, 35, 220, 77, 167, 134,
     239, 248, 20, 124, 78, 114, 185, 128, 119, 133, 175, 238, 72, 187]"
  by code_simp

lemma sha256_b: "sha256 (utf8 (js ''b'')) =
     [62, 35, 232, 22, 0, 57, 89, 74, 51, 137, 79, 101, 100, 225, 177, 52, 139, 189, 122, 0,
     136, 212, 44, 74, 203, 115, 238, 174, 213, 156, 0, 157]"
  by code_simp

lemma hex_sha256_a: "hex
     [202, 151, 129, 18, 202, 27, 189, 202, 250, 194, 49, 179, 154, 35, 220, 77, 167, 134,
     239, 248, 20, 124, 78, 114, 185, 128, 119, 133, 175, 238, 72, 187] =
     js ''ca978112ca1bbdcafac231b39a23dc4da786eff8147c4e72b9807785afee48bb''"
  by code_simp

lemma hex_sha256_b: "hex
     [62, 35, 232, 22, 0, 57, 89, 74, 51, 137, 79, 101, 100, 225, 177, 52, 139, 189, 122, 0,
     136, 212, 44, 74, 203, 115, 238, 174, 213, 156, 0, 157] =
     js ''3e23e8160039594a33894f6564e1b1348bbd7a0088d42c4acb73eeaed59c009d''"
  by code_simp

lemma sha256_raw_ab: "sha256
     ([202, 151, 129, 18, 202, 27, 189, 202, 250, 194, 49, 179, 154, 35, 220, 77, 167, 134,
     239, 248, 20, 124, 78, 114, 185, 128, 119, 133, 175, 238, 72, 187] @
      [62, 35, 232, 22, 0, 57, 89, 74, 51, 137, 79, 101, 100, 225, 177, 52, 139, 189, 122, 0,
     136, 212, 44, 74, 203, 115, 238, 174, 213, 156, 0, 157]) =
     [229, 160, 31, 238, 20, 224, 237, 92, 72, 113, 79, 34, 24, 15, 37, 173, 131, 101, 181,
     63, 151, 121, 247, 157, 196, 163, 215, 233, 57, 99, 249, 74]"
  by code_simp

lemma sha256_hex_ab: "sha256 (utf8
     (js ''ca978112ca1bbdcafac231b39a23dc4da786eff8147c4e72b9807785afee48bb'' @
      js ''3e23e8160039594a33894f6564e1b1348bbd7a0088d42c4acb73eeaed59c009d'')) =
     [98, 175, 92, 60, 184, 218, 62, 79, 37, 6, 30, 130, 158, 190, 234, 92, 117, 19, 197, 73,
     73, 17, 91, 26, 204, 34, 89, 48, 169, 1, 84, 218]"
  by code_simp

lemma hex_raw_ab: "hex
     [229, 160, 31, 238, 20, 224, 237, 92, 72, 113, 79, 34, 24, 15, 37, 173, 131, 101, 181,
     63, 151, 121, 247, 157, 196, 163, 215, 233, 57, 99, 249, 74] =
     js ''e5a01fee14e0ed5c48714f22180f25ad8365b53f9779f79dc4a3d7e93963f94a''"
  by code_simp

lemma hex_hex_ab: "hex
     [98, 175, 92, 60, 184, 218, 62, 79, 37, 6, 30, 130, 158, 190, 234, 92, 117, 19, 197, 73,
     73, 17, 91, 26, 204, 34, 89, 48, 169, 1, 84, 218] =
     js ''62af5c3cb8da3e4f25061e829ebeea5c7513c54949115b1acc225930a90154da''"
  by code_simp

lemma roots_differ:
  "js ''62af5c3cb8da3e4f25061e829ebeea5c7513c54949115b1acc225930a90154da'' \<noteq>
   js ''e5a01fee14e0ed5c48714f22180f25ad8365b53f9779f79dc4a3d7e93963f94a''"
  by code_simp

text \<open>
  Claim C2 as stated fails: in a browser the root hash of \<open>build(["a","b"])\<close> is the
  first string below, while the SHA-256 of the two raw 32-byte digests joined is the
  second.
\<close>

theorem raw_concat_counterexample:
  "map_option (map_sum id getRootHash) (build browser [js ''a'', js ''b'']) =
     Some (Inr (js ''62af5c3cb8da3e4f25061e829ebeea5c7513c54949115b1acc225930a90154da'')) \<and>
   hex (sha256 (sha256 (utf8 (js ''a'')) @ sha256 (utf8 (js ''b'')))) =
     js ''e5a01fee14e0ed5c48714f22180f25ad8365b53f9779f79dc4a3d7e93963f94a'' \<and>
   js ''62af5c3cb8da3e4f25061e829ebeea5c7513c54949115b1acc225930a90154da'' \<noteq>
   js ''e5a01fee14e0ed5c48714f22180f25ad8365b53f9779f79dc4a3d7e93963f94a''"
proof -
  have dg: "subtle_digest browser = Some sha256" by (simp add: browser_def)
  from build_two[OF dg, of "js ''a''" "js ''b''"] obtain t where
    b: "build browser [js ''a'', js ''b''] = Some (Inr t)" and
    r: "getRootHash t =
          digest_hex browser sha256
            (digest_hex browser sha256 (js ''a'') @ digest_hex browser sha256 (js ''b''))"
    by blast
  have enc: "encode browser = utf8" by (simp add: browser_def)
  have "getRootHash t = js ''62af5c3cb8da3e4f25061e829ebeea5c7513c54949115b1acc225930a90154da''"
    unfolding r digest_hex_def enc sha256_a sha256_b hex_sha256_a hex_sha256_b
      sha256_hex_ab hex_hex_ab ..
  then have 1: "map_option (map_sum id getRootHash) (build browser [js ''a'', js ''b'']) =
     Some (Inr (js ''62af5c3cb8da3e4f25061e829ebeea5c7513c54949115b1acc225930a90154da''))"
    using b by simp
  have 2: "hex (sha256 (sha256 (utf8 (js ''a'')) @ sha256 (utf8 (js ''b'')))) =
     js ''e5a01fee14e0ed5c48714f22180f25ad8365b53f9779f79dc4a3d7e93963f94a''"
    unfolding sha256_a sha256_b sha256_raw_ab hex_raw_ab ..
  from 1 2 roots_differ show ?thesis by blast
qed

text \<open>
  Claim C3 as stated fails: with the data \<open>"a"\<close>, the single step (digest of \<open>"b"\<close>,
  right) and as root the SHA-256 of the two raw digests joined, the fold of the claim
  ends in the root, while \<open>verifyProof\<close> returns false.
\<close>

theorem verify_raw_digest_counterexample:
  "verifyProof browser (js ''a'')
     [\<lparr>siblingHash = hex (sha256 (utf8 (js ''b''))), direction = Right\<rparr>]
     (hex (sha256 (sha256 (utf8 (js ''a'')) @ sha256 (utf8 (js ''b''))))) = Inr False"
proof -
  have dg: "subtle_digest browser = Some sha256" by (simp add: browser_def)
  have enc: "encode browser = utf8" by (simp add: browser_def)
  let ?H = "digest_hex browser sha256"
  have ha: "?H (js ''a'') =
      js ''ca978112ca1bbdcafac231b39a23dc4da786eff8147c4e72b9807785afee48bb''"
    unfolding digest_hex_def enc sha256_a hex_sha256_a ..
  have hb: "hex (sha256 (utf8 (js ''b''))) =
      js ''3e23e8160039594a33894f6564e1b1348bbd7a0088d42c4acb73eeaed59c009d''"
    unfolding sha256_b hex_sha256_b ..
  have hab: "?H (js ''ca978112ca1bbdcafac231b39a23dc4da786eff8147c4e72b9807785afee48bb'' @
       js ''3e23e8160039594a33894f6564e1b1348bbd7a0088d42c4acb73eeaed59c009d'') =
      js ''62af5c3cb8da3e4f25061e829ebeea5c7513c54949115b1acc225930a90154da''"
    unfolding digest_hex_def enc sha256_hex_ab hex_hex_ab ..
  have rt: "hex (sha256 (sha256 (utf8 (js ''a'')) @ sha256 (utf8 (js ''b'')))) =
      js ''e5a01fee14e0ed5c48714f22180f25ad8365b53f9779f79dc4a3d7e93963f94a''"
    unfolding sha256_a sha256_b sha256_raw_ab hex_raw_ab ..
  have "foldl (step_hash ?H) (?H (js ''a''))
          [\<lparr>siblingHash = hex (sha256 (utf8 (js ''b''))), direction = Right\<rparr>] =
        js ''62af5c3cb8da3e4f25061e829ebeea5c7513c54949115b1acc225930a90154da''"
    unfolding ha hb by (simp only: foldl_Cons foldl_Nil step_hash_simps hab)
  then show ?thesis
    unfolding verifyProof_fold[OF dg] rt using roots_differ by simp
qed

end
